theory Spec2Isabelle
  imports Complex_Main
begin

section \<open>Values\<close>

text \<open>
  The program is a pandas script over two CSV files. A numeric CSV cell is a finite
  number or is missing (pandas reads an empty cell as NaN), so a cell is a
  \<open>real option\<close>. Computed columns are float64 values: a number, an infinity or NaN.
  Arithmetic on numbers is exact (rounding and overflow of float64, and the sign of
  zero, are not modelled), so a number computed here is the program's up to the rounding
  error of float64; the special values follow IEEE 754, as numpy computes them.
  A timestamp is a number of seconds since 1970-01-01 00:00, a Thursday.
\<close>

type_synonym timestamp = int

type_synonym cell = "real option"

datatype fl = Num real | PosInf | NegInf | NaN

fun of_cell :: "cell \<Rightarrow> fl" where
  "of_cell None = NaN"
| "of_cell (Some x) = Num x"

fun inf_of_sign :: "real \<Rightarrow> fl" where
  "inf_of_sign s = (if s = 0 then NaN else if 0 < s then PosInf else NegInf)"

fun fadd :: "fl \<Rightarrow> fl \<Rightarrow> fl" where
  "fadd (Num a) (Num b) = Num (a + b)"
| "fadd NaN _ = NaN"
| "fadd _ NaN = NaN"
| "fadd PosInf NegInf = NaN"
| "fadd NegInf PosInf = NaN"
| "fadd PosInf _ = PosInf"
| "fadd _ PosInf = PosInf"
| "fadd NegInf _ = NegInf"
| "fadd _ NegInf = NegInf"

fun fmul :: "fl \<Rightarrow> fl \<Rightarrow> fl" where
  "fmul (Num a) (Num b) = Num (a * b)"
| "fmul NaN _ = NaN"
| "fmul _ NaN = NaN"
| "fmul (Num a) PosInf = inf_of_sign a"
| "fmul (Num a) NegInf = inf_of_sign (- a)"
| "fmul PosInf (Num b) = inf_of_sign b"
| "fmul NegInf (Num b) = inf_of_sign (- b)"
| "fmul PosInf PosInf = PosInf"
| "fmul NegInf NegInf = PosInf"
| "fmul PosInf NegInf = NegInf"
| "fmul NegInf PosInf = NegInf"

text \<open>
  Division of two pandas columns never raises: a zero divisor gives an infinity with the
  sign of the dividend, and \<open>0 / 0\<close> gives NaN.
\<close>

fun fdiv :: "fl \<Rightarrow> fl \<Rightarrow> fl" where
  "fdiv (Num a) (Num b) = (if b = 0 then inf_of_sign a else Num (a / b))"
| "fdiv NaN _ = NaN"
| "fdiv _ NaN = NaN"
| "fdiv (Num a) _ = Num 0"
| "fdiv PosInf (Num b) = (if b < 0 then NegInf else PosInf)"
| "fdiv NegInf (Num b) = (if b < 0 then PosInf else NegInf)"
| "fdiv _ _ = NaN"

text \<open>
  \<open>Series.sum()\<close> and \<open>resample(...).sum()\<close> skip NaN entries (\<open>skipna=True\<close>) and give
  0 for an empty or all-NaN selection (\<open>min_count=0\<close>).
\<close>

definition nansum :: "fl list \<Rightarrow> fl" where
  "nansum xs = foldr fadd (filter (\<lambda>x. x \<noteq> NaN) xs) (Num 0)"

section \<open>The smart meter series: \<open>open_smart_meter\<close>\<close>

text \<open>
  \<open>open_glow_csv\<close> reads the file into a series indexed by \<open>dateTime\<close>, in file order;
  the contents of the file are the parameter \<open>raw\<close> here.
\<close>

type_synonym series = "(timestamp \<times> cell) list"

text \<open>\<open>df.loc[df['imports'] > 15, 'imports'] = pd.NA\<close>; a NaN compares false.\<close>

fun mask_errors :: "cell \<Rightarrow> cell" where
  "mask_errors None = None"
| "mask_errors (Some x) = (if x > 15 then None else Some x)"

text \<open>
  \<open>Series.interpolate()\<close> with its defaults (\<open>method='linear'\<close>,
  \<open>limit_direction='forward'\<close>): the index is ignored and the rows are taken as equally
  spaced; a run of \<open>k\<close> NaNs between the values \<open>a\<close> and \<open>b\<close> is filled with
  \<open>(b - a) / (k + 1) * j + a\<close> for \<open>j = 1..k\<close>; NaNs after the last value are filled
  with that value; NaNs before the first value stay NaN. \<open>interp_run a k\<close> has seen the
  value \<open>a\<close> and then \<open>k\<close> NaNs.
\<close>

fun interp_run :: "real \<Rightarrow> nat \<Rightarrow> cell list \<Rightarrow> cell list" where
  "interp_run a k [] = replicate k (Some a)"
| "interp_run a k (None # ys) = interp_run a (Suc k) ys"
| "interp_run a k (Some b # ys) =
     map (\<lambda>j. Some ((b - a) / real (Suc k) * real j + a)) [1..<Suc k]
     @ Some b # interp_run b 0 ys"

fun interpolate :: "cell list \<Rightarrow> cell list" where
  "interpolate [] = []"
| "interpolate (None # ys) = None # interpolate ys"
| "interpolate (Some a # ys) = Some a # interp_run a 0 ys"

definition open_smart_meter :: "series \<Rightarrow> series" where
  "open_smart_meter raw =
     zip (map fst raw) (interpolate (map (\<lambda>r. mask_errors (snd r)) raw))"

text \<open>A reading that the mask keeps: present and not above 15.\<close>

fun plausible :: "cell \<Rightarrow> bool" where
  "plausible None = False"
| "plausible (Some x) = (x \<le> 15)"

section \<open>The grid file: \<open>open_grid\<close>\<close>

text \<open>
  \<open>open_grid\<close> reads \<open>grid.csv\<close> into a frame indexed by \<open>DATETIME\<close>; its rows are the
  parameter \<open>grid\<close> below. The ten generation columns are a function of the source.
\<close>

datatype source = GAS | COAL | NUCLEAR | WIND | HYDRO | IMPORTS | BIOMASS | OTHER | SOLAR | STORAGE

definition GENERATION_MIX_COLUMNS :: "source list" where
  "GENERATION_MIX_COLUMNS =
     [GAS, COAL, NUCLEAR, WIND, HYDRO, IMPORTS, BIOMASS, OTHER, SOLAR, STORAGE]"

record grid_row =
  DATETIME :: timestamp
  CARBON_INTENSITY :: cell
  GENERATION :: cell
  source_gen :: "source \<Rightarrow> cell"

type_synonym grid = "grid_row list"

section \<open>Weekly resampling\<close>

text \<open>
  \<open>resample('W')\<close> is \<open>W-SUN\<close>, closed and labelled on the right, with the right edge
  moved to the last instant of the Sunday: a bin is a calendar week, Monday 00:00 up to
  the end of Sunday, labelled by its Sunday. 1969-12-29 was a Monday, 259200 seconds
  before the epoch; a week has 604800 seconds. The result has one row for every week
  from the week of the earliest timestamp to the week of the latest one, also for a week
  without rows.
\<close>

definition week_of :: "timestamp \<Rightarrow> int" where
  "week_of t = (t + 259200) div 604800"

definition week_end :: "int \<Rightarrow> timestamp" where
  "week_end k = k * 604800 + 259200"

fun weeks_spanned :: "timestamp list \<Rightarrow> int list" where
  "weeks_spanned [] = []"
| "weeks_spanned (t # ts) = [week_of (fold min ts t) .. week_of (fold max ts t)]"

section \<open>\<open>carbon_mix\<close>\<close>

text \<open>
  The frame after \<open>df.join(grid[[CARBON_INTENSITY_COL, GRID_GENERATION_COL]], how='inner')\<close>:
  one row for every pair of a home row and a grid row with the same timestamp, in the
  order of the home rows. Its columns \<open>imports\<close>, \<open>CARBON_INTENSITY\<close> and \<open>GENERATION\<close>
  are the fields \<open>home_imports\<close>, \<open>carbon_intensity\<close> and \<open>grid_generation\<close>.
\<close>

record mix_row =
  ts :: timestamp
  home_imports :: cell
  carbon_intensity :: cell
  grid_generation :: cell

definition join_inner :: "series \<Rightarrow> grid \<Rightarrow> mix_row list" where
  "join_inner df grid =
     concat (map (\<lambda>(t, v).
        map (\<lambda>g. \<lparr>ts = t, home_imports = v, carbon_intensity = CARBON_INTENSITY g,
                   grid_generation = GENERATION g\<rparr>)
            (filter (\<lambda>g. DATETIME g = t) grid)) df)"

definition home_carbon :: "mix_row \<Rightarrow> fl" where
  "home_carbon r = fmul (of_cell (home_imports r)) (of_cell (carbon_intensity r))"

definition grid_carbon :: "mix_row \<Rightarrow> fl" where
  "grid_carbon r = fmul (of_cell (grid_generation r)) (of_cell (carbon_intensity r))"

text \<open>
  A row of \<open>df_weekly\<close>: the sums of the five columns over the week, then the two
  quotients of lines 41 and 42.
\<close>

record weekly_row =
  week :: timestamp
  sum_imports :: fl
  sum_carbon_intensity :: fl
  sum_generation :: fl
  sum_home_carbon :: fl
  sum_grid_carbon :: fl
  home_carbon_intensity :: fl
  grid_carbon_intensity :: fl

definition week_rows :: "int \<Rightarrow> mix_row list \<Rightarrow> mix_row list" where
  "week_rows k df = filter (\<lambda>r. week_of (ts r) = k) df"

definition weekly_row_of :: "mix_row list \<Rightarrow> int \<Rightarrow> weekly_row" where
  "weekly_row_of df k =
     (let rows = week_rows k df;
          i = nansum (map (\<lambda>r. of_cell (home_imports r)) rows);
          c = nansum (map (\<lambda>r. of_cell (carbon_intensity r)) rows);
          g = nansum (map (\<lambda>r. of_cell (grid_generation r)) rows);
          hc = nansum (map home_carbon rows);
          gc = nansum (map grid_carbon rows)
      in \<lparr>week = week_end k, sum_imports = i, sum_carbon_intensity = c, sum_generation = g,
          sum_home_carbon = hc, sum_grid_carbon = gc,
          home_carbon_intensity = fdiv hc i, grid_carbon_intensity = fdiv gc g\<rparr>)"

text \<open>
  What the program raises. A file with a header and no data row is read with an index that
  is not a datetime index, and so is its join with anything; \<open>resample\<close> accepts only a
  datetime index and raises \<open>TypeError\<close> otherwise.
\<close>

datatype error = TypeError | ValueError

text \<open>
  \<open>df_weekly\<close> is the frame of that name in \<open>carbon_mix\<close>, lines 28 to 42, the two
  files being the parameters.
\<close>

definition df_weekly :: "series \<Rightarrow> grid \<Rightarrow> error + weekly_row list" where
  "df_weekly smart_meter_csv grid_csv =
     (let df = open_smart_meter smart_meter_csv;
          df = join_inner df grid_csv
      in if smart_meter_csv = [] \<or> grid_csv = [] then Inl TypeError
         else Inr (map (weekly_row_of df) (weeks_spanned (map ts df))))"




section \<open>\<open>calculate_home_source_usage\<close>\<close>

text \<open>
  Line 76: every generation column divided by the row's total over the ten columns
  (\<open>sum(axis=1)\<close> skips NaN).
\<close>

definition row_total :: "grid_row \<Rightarrow> fl" where
  "row_total g = nansum (map (\<lambda>s. of_cell (source_gen g s)) GENERATION_MIX_COLUMNS)"

definition grid_mix :: "grid_row \<Rightarrow> source \<Rightarrow> fl" where
  "grid_mix g s = fdiv (of_cell (source_gen g s)) (row_total g)"

text \<open>
  Line 80, for every source: the product \<open>df['imports'] * grid_mix[source]\<close> and its
  assignment to a column of \<open>df\<close>. Which grid row stands beside which row of \<open>df\<close> depends
  on the two indexes only, not on the source:
  \<^item> equal indexes are not aligned: the product is taken row by row;
  \<^item> otherwise the indexes are joined (outer, sorted by timestamp), every row of one side
    with every row of the other side that has its timestamp, and the product is
    reindexed to the index of \<open>df\<close> unless it has that index already. Reindexing a series
    with a repeated timestamp raises \<open>ValueError\<close>; so a repeated grid timestamp
    raises, and a repeated home timestamp raises unless the home series is sorted and has
    every grid timestamp;
  \<^item> a \<open>df\<close> without rows takes over the index of the first product, the sorted grid
    index, with every import missing.
  \<open>align df grid\<close> gives the rows of \<open>df\<close> after the loop, each with the grid row beside
  it, if there is one.
\<close>

type_synonym aligned_row = "(timestamp \<times> cell) \<times> grid_row option"

definition align :: "series \<Rightarrow> grid \<Rightarrow> error + aligned_row list" where
  "align df grid =
     (let H = map fst df; G = map DATETIME grid
      in if df = [] then
           (if \<not> distinct G \<and> \<not> sorted G then Inl ValueError
            else Inr (map (\<lambda>g. ((DATETIME g, None), Some g)) grid))
         else if H = G then Inr (zip df (map Some grid))
         else if \<not> distinct G then Inl ValueError
         else if distinct H \<or> (sorted H \<and> set G \<subseteq> set H)
           then Inr (map (\<lambda>r. (r, find (\<lambda>g. DATETIME g = fst r) grid)) df)
         else Inl ValueError)"

text \<open>
  The value of the column \<open>df[source]\<close> in a row: the import times the fraction of the
  source in the grid row beside it; without a grid row the fraction is NaN.
\<close>

fun attributed :: "source \<Rightarrow> aligned_row \<Rightarrow> fl" where
  "attributed s ((t, v), None) = fmul (of_cell v) NaN"
| "attributed s ((t, v), Some g) = fmul (of_cell v) (grid_mix g s)"

record weekly_usage =
  usage_week :: timestamp
  usage :: "source \<Rightarrow> fl"

text \<open>
  Line 83 resamples the ten columns by week; with two files without data rows the index
  is not a datetime index and \<open>resample\<close> raises.
\<close>

definition calculate_home_source_usage :: "series \<Rightarrow> grid \<Rightarrow> error + weekly_usage list" where
  "calculate_home_source_usage smart_meter_csv grid_csv =
     (let df = open_smart_meter smart_meter_csv
      in case align df grid_csv of
           Inl e \<Rightarrow> Inl e
         | Inr rows \<Rightarrow>
             if rows = [] then Inl TypeError
             else Inr (map (\<lambda>k. \<lparr>usage_week = week_end k,
                         usage = (\<lambda>s. nansum (map (attributed s)
                            (filter (\<lambda>r. week_of (fst (fst r)) = k) rows)))\<rparr>)
                       (weeks_spanned (map (\<lambda>r. fst (fst r)) rows))))"

section \<open>Auxiliary definitions for the statements\<close>

text \<open>A grid row with the given timestamp, intensity and total generation.\<close>

definition ex_grid_row :: "timestamp \<Rightarrow> real \<Rightarrow> real \<Rightarrow> grid_row" where
  "ex_grid_row t c g = \<lparr>DATETIME = t, CARBON_INTENSITY = Some c, GENERATION = Some g, source_gen = (\<lambda>s. Some 1)\<rparr>"

text \<open>What a cell or a value adds to a sum that skips NaN.\<close>

fun cell_val :: "cell \<Rightarrow> real" where
  "cell_val None = 0"
| "cell_val (Some x) = x"

fun fl_val :: "fl \<Rightarrow> real" where
  "fl_val (Num x) = x"
| "fl_val _ = 0"

fun num_or_nan :: "fl \<Rightarrow> bool" where
  "num_or_nan (Num x) = True"
| "num_or_nan NaN = True"
| "num_or_nan _ = False"

text \<open>
  The calendar week that ends on the Sunday whose midnight is \<open>sunday\<close>: from the Monday
  six days (518400 seconds) before it, up to the end of that Sunday.
\<close>

definition in_week_ending :: "timestamp \<Rightarrow> timestamp \<Rightarrow> bool" where
  "in_week_ending sunday t = (sunday - 518400 \<le> t \<and> t < sunday + 86400)"

text \<open>The day of the week of a timestamp, Sunday being 0; the epoch was a Thursday.\<close>

definition weekday :: "timestamp \<Rightarrow> int" where
  "weekday t = (t div 86400 + 4) mod 7"

text \<open>A grid row with the given timestamp and generation by source.\<close>

definition ex_mix_row :: "timestamp \<Rightarrow> (source \<Rightarrow> cell) \<Rightarrow> grid_row" where
  "ex_mix_row t m = \<lparr>DATETIME = t, CARBON_INTENSITY = None, GENERATION = None, source_gen = m\<rparr>"

section \<open>Interpolation lemmas\<close>

lemma length_interp_run: "length (interp_run a k ys) = k + length ys"
  by (induction a k ys rule: interp_run.induct) auto

lemma length_interpolate: "length (interpolate ys) = length ys"
  by (induction ys rule: interpolate.induct) (auto simp: length_interp_run)

lemma interp_run_gap: "interp_run a m (replicate k None @ ys) = interp_run a (m + k) ys"
  by (induction k arbitrary: m) auto

lemma interp_run_prefix:
  "\<exists>zs. length zs = k + length pre \<and>
        interp_run a0 k (pre @ Some a # ys) = zs @ Some a # interp_run a 0 ys"
proof (induction pre arbitrary: a0 k)
  case Nil
  show ?case
    by (rule exI [of _ "map (\<lambda>j. Some ((a - a0) / real (Suc k) * real j + a0)) [1..<Suc k]"]) simp
next
  case (Cons c pre)
  show ?case
  proof (cases c)
    case None
    from Cons.IH [where ?a0.0 = a0 and k = "Suc k"] None show ?thesis by auto
  next
    case (Some b)
    from Cons.IH [where ?a0.0 = b and k = 0] obtain zs where zs: "length zs = length pre"
      "interp_run b 0 (pre @ Some a # ys) = zs @ Some a # interp_run a 0 ys" by auto
    show ?thesis
      by (rule exI [of _ "map (\<lambda>j. Some ((b - a0) / real (Suc k) * real j + a0)) [1..<Suc k] @ Some b # zs"])
         (simp add: Some zs)
  qed
qed

lemma interpolate_prefix:
  "\<exists>zs. length zs = length pre \<and>
        interpolate (pre @ Some a # ys) = zs @ Some a # interp_run a 0 ys"
proof (induction pre)
  case Nil
  show ?case by simp
next
  case (Cons c pre)
  show ?case
  proof (cases c)
    case None
    from Cons obtain zs where "length zs = length pre"
      "interpolate (pre @ Some a # ys) = zs @ Some a # interp_run a 0 ys" by auto
    then show ?thesis using None by (intro exI [of _ "None # zs"]) simp
  next
    case (Some b)
    from interp_run_prefix [of 0 pre b a ys] obtain zs where "length zs = length pre"
      "interp_run b 0 (pre @ Some a # ys) = zs @ Some a # interp_run a 0 ys" by auto
    then show ?thesis using Some by (intro exI [of _ "Some b # zs"]) simp
  qed
qed

lemma interpolate_leading: "interpolate (replicate m None @ ys) = replicate m None @ interpolate ys"
  by (induction m) auto

lemma interp_run_trailing: "interp_run a m (replicate k None) = replicate (m + k) (Some a)"
  using interp_run_gap [of a m k "[]"] by simp

lemma all_None_replicate:
  assumes "\<forall>j. j < length xs \<longrightarrow> xs ! j = None"
  shows "xs = replicate (length xs) None"
  by (rule nth_equalityI) (use assms in auto)

lemma gap_decomp:
  assumes "l < r" "r < length cs" "cs ! l = Some a" "cs ! r = Some b"
    and "\<forall>j. l < j \<and> j < r \<longrightarrow> cs ! j = None"
  shows "cs = take l cs @ Some a # replicate (r - l - 1) None @ Some b # drop (Suc r) cs"
proof -
  let ?k = "r - l - 1"
  let ?tl = "drop (Suc l) cs"
  have l: "l < length cs" using assms by simp
  have k: "?k < length ?tl" using assms by simp
  have 1: "cs = take l cs @ Some a # ?tl"
    using id_take_nth_drop [OF l] assms(3) by simp
  have 2: "?tl = take ?k ?tl @ ?tl ! ?k # drop (Suc ?k) ?tl"
    using id_take_nth_drop [OF k] .
  have 3: "?tl ! ?k = Some b" using assms by simp
  have 4: "drop (Suc ?k) ?tl = drop (Suc r) cs" using assms by simp
  have "\<forall>j. j < length (take ?k ?tl) \<longrightarrow> take ?k ?tl ! j = None"
    using assms by simp
  from all_None_replicate [OF this] have 5: "take ?k ?tl = replicate ?k None"
    using k by simp
  show ?thesis using 1 2 3 4 5 by metis
qed

lemma nth_after_prefix:
  assumes "length zs = l" "l < i" "i - l - 1 < length ms"
  shows "(zs @ x # ms @ ys) ! i = ms ! (i - l - 1)"
proof -
  have "i = length zs + Suc (i - l - 1)" using assms by simp
  then have "(zs @ x # ms @ ys) ! i = (x # ms @ ys) ! Suc (i - l - 1)"
    by (metis nth_append_length_plus)
  also have "\<dots> = ms ! (i - l - 1)" using assms(3) by (simp add: nth_append)
  finally show ?thesis .
qed

lemma interpolate_kept:
  assumes "i < length cs" "cs ! i = Some x"
  shows "interpolate cs ! i = Some x"
proof -
  have cs: "cs = take i cs @ Some x # drop (Suc i) cs"
    using assms by (metis id_take_nth_drop)
  obtain zs where zs: "length zs = length (take i cs)"
    "interpolate (take i cs @ Some x # drop (Suc i) cs) = zs @ Some x # interp_run x 0 (drop (Suc i) cs)"
    using interpolate_prefix by blast
  have "length zs = i" using zs(1) assms(1) by simp
  then have "(zs @ Some x # interp_run x 0 (drop (Suc i) cs)) ! i = Some x" by (simp add: nth_append)
  then show ?thesis using zs(2) cs by simp
qed

lemma interpolate_between:
  assumes "l < i" "i < r" "r < length cs" "cs ! l = Some a" "cs ! r = Some b"
    and "\<forall>j. l < j \<and> j < r \<longrightarrow> cs ! j = None"
  shows "interpolate cs ! i = Some ((b - a) / real (r - l) * real (i - l) + a)"
proof -
  let ?k = "r - l - 1"
  let ?rest = "drop (Suc r) cs"
  let ?f = "\<lambda>j. Some ((b - a) / real (Suc ?k) * real j + a)"
  have lr: "l < r" using assms by simp
  have cs: "cs = take l cs @ Some a # replicate ?k None @ Some b # ?rest"
    using gap_decomp [OF lr assms(3,4,5,6)] .
  obtain zs where zs: "length zs = length (take l cs)"
    "interpolate (take l cs @ Some a # replicate ?k None @ Some b # ?rest)
       = zs @ Some a # interp_run a 0 (replicate ?k None @ Some b # ?rest)"
    using interpolate_prefix by blast
  have len: "length zs = l" using zs(1) assms by simp
  have run: "interp_run a 0 (replicate ?k None @ Some b # ?rest)
      = map ?f [1..<Suc ?k] @ Some b # interp_run b 0 ?rest"
    by (simp add: interp_run_gap)
  have "interpolate cs = zs @ Some a # map ?f [1..<Suc ?k] @ Some b # interp_run b 0 ?rest"
    using zs(2) cs run by simp
  moreover have "i - l - 1 < length (map ?f [1..<Suc ?k])"
    using assms(1,2) by (simp only: length_map length_upt)
  ultimately have "interpolate cs ! i = map ?f [1..<Suc ?k] ! (i - l - 1)"
    using nth_after_prefix [OF len assms(1)] by simp
  also have "\<dots> = ?f (1 + (i - l - 1))"
  proof -
    have "i - l - 1 < length [1..<Suc ?k]"
      using assms(1,2) by (simp only: length_upt)
    then have "map ?f [1..<Suc ?k] ! (i - l - 1) = ?f ([1..<Suc ?k] ! (i - l - 1))"
      by (rule nth_map)
    moreover have "1 + (i - l - 1) < Suc ?k" using assms(1,2) by arith
    ultimately show ?thesis by (simp only: nth_upt)
  qed
  also have "\<dots> = Some ((b - a) / real (r - l) * real (i - l) + a)"
  proof -
    have "Suc ?k = r - l" "1 + (i - l - 1) = i - l" using assms(1,2) by simp_all
    then show ?thesis by simp
  qed
  finally show ?thesis .
qed

lemma interpolate_after_last:
  assumes "l < i" "i < length cs" "cs ! l = Some a"
    and "\<forall>j. l < j \<and> j < length cs \<longrightarrow> cs ! j = None"
  shows "interpolate cs ! i = Some a"
proof -
  let ?k = "length cs - l - 1"
  let ?tl = "drop (Suc l) cs"
  have l: "l < length cs" using assms by simp
  have "\<forall>j. j < length ?tl \<longrightarrow> ?tl ! j = None" using assms by simp
  from all_None_replicate [OF this] have "?tl = replicate ?k None" by simp
  then have cs: "cs = take l cs @ Some a # replicate ?k None"
    using id_take_nth_drop [OF l] assms(3) by simp
  obtain zs where zs: "length zs = length (take l cs)"
    "interpolate (take l cs @ Some a # replicate ?k None)
       = zs @ Some a # interp_run a 0 (replicate ?k None)"
    using interpolate_prefix by blast
  have len: "length zs = l" using zs(1) assms by simp
  have eq: "interpolate cs = zs @ Some a # replicate ?k (Some a)"
    using cs zs(2) interp_run_trailing [of a 0 ?k] by simp
  have lt: "i - l - 1 < length (replicate ?k (Some a))"
    using assms(1,2) by (simp only: length_replicate)
  have "interpolate cs ! i = replicate ?k (Some a) ! (i - l - 1)"
    using nth_after_prefix [OF len assms(1) lt, where ys = "[]" and x = "Some a"] eq by simp
  then show ?thesis using lt by (simp only: nth_replicate length_replicate)
qed

lemma interpolate_before_first:
  assumes "i < length cs" "\<forall>j. j \<le> i \<longrightarrow> cs ! j = None"
  shows "interpolate cs ! i = None"
proof -
  have "\<forall>j. j < length (take (Suc i) cs) \<longrightarrow> take (Suc i) cs ! j = None"
    using assms by simp
  from all_None_replicate [OF this] have "take (Suc i) cs = replicate (Suc i) None"
    using assms(1) by simp
  then have "cs = replicate (Suc i) None @ drop (Suc i) cs"
    by (metis append_take_drop_id)
  then have "interpolate cs = replicate (Suc i) None @ interpolate (drop (Suc i) cs)"
    using interpolate_leading [of "Suc i" "drop (Suc i) cs"] by simp
  then have "interpolate cs ! i = replicate (Suc i) None ! i"
    by (simp add: nth_append del: replicate_Suc)
  then show ?thesis by (simp del: replicate_Suc)
qed

lemma interp_value_upper:
  assumes "a \<le> U" "b \<le> U" "j \<le> k"
  shows "(b - a) / real (Suc k) * real j + a \<le> (U::real)"
proof -
  let ?t = "real j / real (Suc k)"
  have t: "0 \<le> ?t" "?t \<le> 1" using assms(3) by simp_all
  have "(b - a) / real (Suc k) * real j + a = b * ?t + a * (1 - ?t)"
    by (simp add: algebra_simps diff_divide_distrib)
  also have "\<dots> \<le> U * ?t + U * (1 - ?t)"
    using t assms(1,2) by (intro add_mono mult_right_mono) simp_all
  also have "\<dots> = U" by (simp add: algebra_simps)
  finally show ?thesis .
qed

lemma interp_value_lower:
  assumes "L \<le> a" "L \<le> b" "j \<le> k"
  shows "(L::real) \<le> (b - a) / real (Suc k) * real j + a"
proof -
  let ?t = "real j / real (Suc k)"
  have t: "0 \<le> ?t" "?t \<le> 1" using assms(3) by simp_all
  have "L = L * ?t + L * (1 - ?t)" by (simp add: algebra_simps)
  also have "\<dots> \<le> b * ?t + a * (1 - ?t)"
    using t assms(1,2) by (intro add_mono mult_right_mono) simp_all
  also have "\<dots> = (b - a) / real (Suc k) * real j + a"
    by (simp add: algebra_simps diff_divide_distrib)
  finally show ?thesis .
qed

lemma interp_run_upper:
  "a \<le> U \<Longrightarrow> \<forall>v. Some v \<in> set ys \<longrightarrow> v \<le> U \<Longrightarrow> Some v \<in> set (interp_run a k ys) \<Longrightarrow> v \<le> U"
proof (induction a k ys rule: interp_run.induct)
  case (1 a k)
  then show ?case by auto
next
  case (2 a k ys)
  then show ?case by auto
next
  case (3 a k b ys)
  have b: "b \<le> U" using 3(3) by simp
  from 3(4) consider "\<exists>j\<in>set [1..<Suc k]. v = (b - a) / real (Suc k) * real j + a"
    | "v = b" | "Some v \<in> set (interp_run b 0 ys)" by (auto simp del: upt_Suc of_nat_Suc)
  then show ?case
  proof cases
    case 1
    then obtain j where j: "j \<in> set [1..<Suc k]" "v = (b - a) / real (Suc k) * real j + a"
      by blast
    from j(1) have "j \<le> k" by (simp del: upt_Suc)
    from interp_value_upper [OF 3(2) b this] j(2) show ?thesis by simp
  next
    case 2 then show ?thesis using b by simp
  next
    case 3
    then show ?thesis using "3.IH" [OF b] "3.prems"(2) by simp
  qed
qed

lemma interp_run_lower:
  "L \<le> a \<Longrightarrow> \<forall>v. Some v \<in> set ys \<longrightarrow> L \<le> v \<Longrightarrow> Some v \<in> set (interp_run a k ys) \<Longrightarrow> L \<le> v"
proof (induction a k ys rule: interp_run.induct)
  case (1 a k)
  then show ?case by auto
next
  case (2 a k ys)
  then show ?case by auto
next
  case (3 a k b ys)
  have b: "L \<le> b" using 3(3) by simp
  from 3(4) consider "\<exists>j\<in>set [1..<Suc k]. v = (b - a) / real (Suc k) * real j + a"
    | "v = b" | "Some v \<in> set (interp_run b 0 ys)" by (auto simp del: upt_Suc of_nat_Suc)
  then show ?case
  proof cases
    case 1
    then obtain j where j: "j \<in> set [1..<Suc k]" "v = (b - a) / real (Suc k) * real j + a"
      by blast
    from j(1) have "j \<le> k" by (simp del: upt_Suc)
    from interp_value_lower [OF 3(2) b this] j(2) show ?thesis by simp
  next
    case 2 then show ?thesis using b by simp
  next
    case 3
    then show ?thesis using "3.IH" [OF b] "3.prems"(2) by simp
  qed
qed

lemma interpolate_upper:
  "\<forall>v. Some v \<in> set ys \<longrightarrow> v \<le> U \<Longrightarrow> Some v \<in> set (interpolate ys) \<Longrightarrow> v \<le> U"
proof (induction ys rule: interpolate.induct)
  case 1 then show ?case by simp
next
  case (2 ys) then show ?case by auto
next
  case (3 a ys)
  then show ?case using interp_run_upper [of a U ys v 0] by auto
qed

lemma interpolate_lower:
  "\<forall>v. Some v \<in> set ys \<longrightarrow> L \<le> v \<Longrightarrow> Some v \<in> set (interpolate ys) \<Longrightarrow> L \<le> v"
proof (induction ys rule: interpolate.induct)
  case 1 then show ?case by simp
next
  case (2 ys) then show ?case by auto
next
  case (3 a ys)
  then show ?case using interp_run_lower [of L a ys v 0] by auto
qed

lemma mask_errors_upper: "mask_errors c = Some v \<Longrightarrow> v \<le> 15"
  by (cases c) (auto split: if_splits)

lemma mask_errors_plausible: "mask_errors c = (if plausible c then c else None)"
  by (cases c) auto

lemma open_smart_meter_index: "map fst (open_smart_meter raw) = map fst raw"
  by (simp add: open_smart_meter_def length_interpolate)

lemma open_smart_meter_nth:
  "i < length raw \<Longrightarrow>
   snd (open_smart_meter raw ! i) = interpolate (map (\<lambda>r. mask_errors (snd r)) raw) ! i"
  by (simp add: open_smart_meter_def length_interpolate)

section \<open>The inner join\<close>






section \<open>Sums that skip NaN\<close>

lemma nansum_Nil: "nansum [] = Num 0"
  by (simp add: nansum_def)

lemma nansum_Cons: "nansum (x # xs) = (if x = NaN then nansum xs else fadd x (nansum xs))"
  by (simp add: nansum_def)

lemma nansum_num_or_nan:
  "\<forall>x \<in> set xs. num_or_nan x \<Longrightarrow> nansum xs = Num (\<Sum>x\<leftarrow>xs. fl_val x)"
proof (induction xs)
  case Nil
  show ?case by (simp add: nansum_Nil)
next
  case (Cons x xs)
  then show ?case by (cases x) (simp_all add: nansum_Cons)
qed

lemma num_or_nan_of_cell: "num_or_nan (of_cell c)"
  by (cases c) simp_all

lemma fl_val_of_cell: "fl_val (of_cell c) = cell_val c"
  by (cases c) simp_all

lemma num_or_nan_product: "num_or_nan (fmul (of_cell c) (of_cell d))"
  by (cases c; cases d) simp_all

lemma fl_val_product: "fl_val (fmul (of_cell c) (of_cell d)) = cell_val c * cell_val d"
  by (cases c; cases d) simp_all

lemma nansum_cells: "nansum (map (\<lambda>r. of_cell (f r)) rows) = Num (\<Sum>r\<leftarrow>rows. cell_val (f r))"
  using nansum_num_or_nan [of "map (\<lambda>r. of_cell (f r)) rows"]
  by (simp add: num_or_nan_of_cell fl_val_of_cell comp_def)

lemma nansum_products:
  "nansum (map (\<lambda>r. fmul (of_cell (f r)) (of_cell (g r))) rows)
     = Num (\<Sum>r\<leftarrow>rows. cell_val (f r) * cell_val (g r))"
  using nansum_num_or_nan [of "map (\<lambda>r. fmul (of_cell (f r)) (of_cell (g r))) rows"]
  by (simp add: num_or_nan_product fl_val_product comp_def)

lemma nansum_home_carbon:
  "nansum (map home_carbon rows)
     = Num (\<Sum>r\<leftarrow>rows. cell_val (home_imports r) * cell_val (carbon_intensity r))"
  using nansum_products [of home_imports carbon_intensity rows]
  by (simp add: home_carbon_def [abs_def])

lemma nansum_grid_carbon:
  "nansum (map grid_carbon rows)
     = Num (\<Sum>r\<leftarrow>rows. cell_val (grid_generation r) * cell_val (carbon_intensity r))"
  using nansum_products [of grid_generation carbon_intensity rows]
  by (simp add: grid_carbon_def [abs_def])

section \<open>Calendar weeks\<close>

lemma div_eq_iff_bounds:
  fixes t c k :: int
  assumes "0 < c"
  shows "t div c = k \<longleftrightarrow> k * c \<le> t \<and> t < k * c + c"
proof
  assume "t div c = k"
  moreover have "t = c * (t div c) + t mod c" by simp
  moreover have "0 \<le> t mod c" "t mod c < c" using assms by simp_all
  ultimately show "k * c \<le> t \<and> t < k * c + c"
    by (metis add.commute add_le_cancel_left add_less_cancel_left add.right_neutral mult.commute)
next
  assume b: "k * c \<le> t \<and> t < k * c + c"
  have "t = c * k + (t - k * c)" by simp
  moreover have "0 \<le> t - k * c" "t - k * c < c" using b by simp_all
  ultimately show "t div c = k" by (rule int_div_pos_eq)
qed

lemma week_of_calendar: "week_of t = k \<longleftrightarrow> in_week_ending (week_end k) t"
  unfolding week_of_def in_week_ending_def week_end_def
  using div_eq_iff_bounds [of 604800 "t + 259200" k] by auto

lemma week_end_sunday: "weekday (week_end k) = 0 \<and> week_end k mod 86400 = 0"
proof -
  have "week_end k = (k * 7 + 3) * 86400" by (simp add: week_end_def)
  then show ?thesis by (simp add: weekday_def)
qed

lemma week_rows_calendar: "week_rows k df = filter (\<lambda>r. in_week_ending (week_end k) (ts r)) df"
  by (simp add: week_rows_def week_of_calendar)

section \<open>The weekly table\<close>

lemma weekly_row_of_week: "week (weekly_row_of df k) = week_end k"
  by (simp add: weekly_row_of_def Let_def)

lemma weekly_row_of_sum_imports:
  "sum_imports (weekly_row_of df k) = Num (\<Sum>r\<leftarrow>week_rows k df. cell_val (home_imports r))"
  by (simp add: weekly_row_of_def Let_def nansum_cells)

lemma weekly_row_of_sum_generation:
  "sum_generation (weekly_row_of df k) = Num (\<Sum>r\<leftarrow>week_rows k df. cell_val (grid_generation r))"
  by (simp add: weekly_row_of_def Let_def nansum_cells)

lemma weekly_row_of_sum_home_carbon:
  "sum_home_carbon (weekly_row_of df k)
     = Num (\<Sum>r\<leftarrow>week_rows k df. cell_val (home_imports r) * cell_val (carbon_intensity r))"
  by (simp add: weekly_row_of_def Let_def nansum_home_carbon)

lemma weekly_row_of_sum_grid_carbon:
  "sum_grid_carbon (weekly_row_of df k)
     = Num (\<Sum>r\<leftarrow>week_rows k df. cell_val (grid_generation r) * cell_val (carbon_intensity r))"
  by (simp add: weekly_row_of_def Let_def nansum_grid_carbon)

lemma weekly_row_of_home_intensity:
  "home_carbon_intensity (weekly_row_of df k)
     = fdiv (sum_home_carbon (weekly_row_of df k)) (sum_imports (weekly_row_of df k))"
  by (simp add: weekly_row_of_def Let_def)

lemma weekly_row_of_grid_intensity:
  "grid_carbon_intensity (weekly_row_of df k)
     = fdiv (sum_grid_carbon (weekly_row_of df k)) (sum_generation (weekly_row_of df k))"
  by (simp add: weekly_row_of_def Let_def)

lemmas weekly_row_of_sums =
  weekly_row_of_sum_imports weekly_row_of_sum_generation
  weekly_row_of_sum_home_carbon weekly_row_of_sum_grid_carbon

lemma df_weekly_returns:
  assumes "raw \<noteq> []" "grid \<noteq> []"
  shows "df_weekly raw grid
     = Inr (map (weekly_row_of (join_inner (open_smart_meter raw) grid))
         (weeks_spanned (map ts (join_inner (open_smart_meter raw) grid))))"
  using assms by (simp add: df_weekly_def Let_def)

lemma df_weekly_Inr:
  assumes "df_weekly raw grid = Inr weekly"
  shows "raw \<noteq> [] \<and> grid \<noteq> [] \<and>
     weekly = map (weekly_row_of (join_inner (open_smart_meter raw) grid))
         (weeks_spanned (map ts (join_inner (open_smart_meter raw) grid)))"
  using assms by (auto simp: df_weekly_def Let_def split: if_splits)

lemma df_weekly_row:
  assumes "df_weekly raw grid = Inr weekly" "w \<in> set weekly"
  obtains k where "w = weekly_row_of (join_inner (open_smart_meter raw) grid) k"
  using df_weekly_Inr [OF assms(1)] assms(2) by auto

lemma week_rows_idem: "week_rows k (week_rows k df) = week_rows k df"
  by (simp add: week_rows_def)

lemma weekly_row_of_local: "weekly_row_of (week_rows k df) k = weekly_row_of df k"
  by (simp add: weekly_row_of_def week_rows_idem)

lemma week_of_week_end: "week_of (week_end k) = k"
  by (simp add: week_of_def week_end_def)

lemma sum_list_nonneg_zero:
  "\<forall>r \<in> set rows. \<forall>x. f r = Some x \<longrightarrow> 0 \<le> x \<Longrightarrow> (\<Sum>r\<leftarrow>rows. cell_val (f r)) = 0 \<Longrightarrow>
   (\<Sum>r\<leftarrow>rows. cell_val (f r) * g r) = (0::real)"
proof (induction rows)
  case Nil
  show ?case by simp
next
  case (Cons r rows)
  have nn: "\<And>q. q \<in> set (r # rows) \<Longrightarrow> 0 \<le> cell_val (f q)"
  proof -
    fix q assume "q \<in> set (r # rows)"
    then show "0 \<le> cell_val (f q)" using Cons.prems(1) by (cases "f q") auto
  qed
  have tl: "0 \<le> (\<Sum>r\<leftarrow>rows. cell_val (f r))"
    by (rule sum_list_nonneg) (use nn in auto)
  have "cell_val (f r) + (\<Sum>r\<leftarrow>rows. cell_val (f r)) = 0" using Cons.prems(2) by simp
  with tl nn [of r] have z: "cell_val (f r) = 0" "(\<Sum>r\<leftarrow>rows. cell_val (f r)) = 0" by simp_all
  from Cons.IH [OF _ z(2)] Cons.prems(1) z(1) show ?case by simp
qed

section \<open>The generation mix\<close>






section \<open>The weekly usage table\<close>

lemma fmul_NaN_right: "fmul x NaN = NaN"
  by (cases x) simp_all

lemma open_smart_meter_Nil: "open_smart_meter raw = [] \<longleftrightarrow> raw = []"
proof -
  have "length (map fst (open_smart_meter raw)) = length (map fst raw)"
    by (simp only: open_smart_meter_index)
  then have "length (open_smart_meter raw) = length raw" by simp
  then show ?thesis by (simp only: length_0_conv [symmetric])
qed

lemma align_empty:
  assumes "align [] grid = Inr rows"
  shows "rows = map (\<lambda>g. ((DATETIME g, None), Some g)) grid"
  using assms by (simp add: align_def Let_def split: if_splits)

lemma align_index:
  assumes "align df grid = Inr rows" "df \<noteq> []"
  shows "map fst rows = df"
proof (cases "map fst df = map DATETIME grid")
  case True
  then have "length (map fst df) = length (map DATETIME grid)" by simp
  then have len: "length df = length (map Some grid)" by simp
  have "rows = zip df (map Some grid)"
    using assms True by (simp add: align_def)
  then show ?thesis using len by (simp only: map_fst_zip)
next
  case False
  then have "rows = map (\<lambda>r. (r, find (\<lambda>g. DATETIME g = fst r) grid)) df"
    using assms by (simp add: align_def Let_def split: if_splits)
  then show ?thesis by (simp add: comp_def)
qed

lemma align_partner_Some:
  assumes "align df grid = Inr rows" "((t, v), Some g) \<in> set rows"
  shows "g \<in> set grid \<and> DATETIME g = t"
proof (cases "df = []")
  case True
  then show ?thesis using align_empty [of grid rows] assms by auto
next
  case ne: False
  show ?thesis
  proof (cases "map fst df = map DATETIME grid")
    case True
    then have rows: "rows = zip df (map Some grid)"
      using assms(1) ne by (simp add: align_def)
    from assms(2) obtain i where i: "i < length df" "i < length grid"
      "df ! i = (t, v)" "grid ! i = g"
      unfolding rows by (auto simp: in_set_zip)
    have "map fst df ! i = map DATETIME grid ! i" using True by simp
    then have "DATETIME g = t" using i by simp
    moreover have "g \<in> set grid" using i(2,4) nth_mem by blast
    ultimately show ?thesis by simp
  next
    case False
    then have "rows = map (\<lambda>r. (r, find (\<lambda>g. DATETIME g = fst r) grid)) df"
      using assms(1) ne by (simp add: align_def Let_def split: if_splits)
    then have f: "find (\<lambda>g. DATETIME g = t) grid = Some g" using assms(2) by auto
    then obtain i where "i < length grid" "DATETIME (grid ! i) = t" "g = grid ! i"
      unfolding find_Some_iff by blast
    then show ?thesis by auto
  qed
qed

lemma align_partner_None:
  assumes "align df grid = Inr rows" "((t, v), None) \<in> set rows"
  shows "t \<notin> DATETIME ` set grid"
proof (cases "df = []")
  case True
  then show ?thesis using align_empty [of grid rows] assms by auto
next
  case ne: False
  show ?thesis
  proof (cases "map fst df = map DATETIME grid")
    case True
    then have rows: "rows = zip df (map Some grid)"
      using assms(1) ne by (simp add: align_def)
    from assms(2) show ?thesis unfolding rows by (auto simp: in_set_zip)
  next
    case False
    then have "rows = map (\<lambda>r. (r, find (\<lambda>g. DATETIME g = fst r) grid)) df"
      using assms(1) ne by (simp add: align_def Let_def split: if_splits)
    then have "find (\<lambda>g. DATETIME g = t) grid = None" using assms(2) by auto
    then show ?thesis unfolding find_None_iff by auto
  qed
qed

lemma align_partner:
  assumes "align df grid = Inr rows" "r \<in> set rows"
  shows "(snd r = None \<longleftrightarrow> fst (fst r) \<notin> set (map DATETIME grid)) \<and>
     (\<forall>g. snd r = Some g \<longrightarrow> g \<in> set grid \<and> DATETIME g = fst (fst r))"
proof (cases r)
  case (Pair tv p)
  obtain t v where tv: "tv = (t, v)" by (cases tv)
  show ?thesis
  proof (cases p)
    case None
    then have "t \<notin> DATETIME ` set grid"
      using align_partner_None [OF assms(1), of t v] assms(2) Pair tv by simp
    then show ?thesis using Pair tv None by simp
  next
    case (Some g)
    then have "g \<in> set grid \<and> DATETIME g = t"
      using align_partner_Some [OF assms(1), of t v g] assms(2) Pair tv by simp
    then show ?thesis using Pair tv Some by auto
  qed
qed

lemma align_home:
  assumes "align (open_smart_meter raw) grid = Inr rows" "r \<in> set rows"
    "fst (fst r) \<notin> set (map fst raw)"
  shows "raw = [] \<and> snd (fst r) = None"
proof -
  have "raw = []"
  proof (rule ccontr)
    assume "raw \<noteq> []"
    then have "open_smart_meter raw \<noteq> []"
      using open_smart_meter_index [of raw] by auto
    from align_index [OF assms(1) this]
    have i: "map fst rows = open_smart_meter raw" .
    have "map (\<lambda>r. fst (fst r)) rows = map fst (map fst rows)" by simp
    then have "map (\<lambda>r. fst (fst r)) rows = map fst (open_smart_meter raw)"
      by (simp only: i)
    then have "set (map (\<lambda>r. fst (fst r)) rows) = set (map fst raw)"
      by (simp only: open_smart_meter_index)
    then show False using assms(2,3) by auto
  qed
  moreover have "open_smart_meter [] = []" by (simp add: open_smart_meter_def)
  ultimately show ?thesis using align_empty [of grid rows] assms(1,2) by auto
qed

lemma attributed_one_sided:
  assumes "align (open_smart_meter raw) grid = Inr rows" "r \<in> set rows"
    "fst (fst r) \<notin> set (map fst raw) \<or> fst (fst r) \<notin> set (map DATETIME grid)"
  shows "attributed s r = NaN"
proof -
  obtain t v p where r: "r = ((t, v), p)" by (cases r) auto
  from assms(3) show ?thesis
  proof
    assume "fst (fst r) \<notin> set (map fst raw)"
    from align_home [OF assms(1,2) this] have "v = None" using r by simp
    then show ?thesis using r by (cases p) simp_all
  next
    assume "fst (fst r) \<notin> set (map DATETIME grid)"
    then have "p = None" using align_partner [OF assms(1,2)] r by simp
    then show ?thesis using r by (simp add: fmul_NaN_right)
  qed
qed

lemma nansum_filter_NaN:
  assumes "\<forall>x \<in> set xs. \<not> P x \<longrightarrow> f x = NaN"
  shows "nansum (map f (filter P xs)) = nansum (map f xs)"
  using assms by (induction xs) (simp_all add: nansum_Cons)

lemma usage_Inr:
  assumes "calculate_home_source_usage raw grid = Inr tbl"
  obtains rows where "align (open_smart_meter raw) grid = Inr rows" "rows \<noteq> []"
    "tbl = map (\<lambda>k. \<lparr>usage_week = week_end k,
                   usage = (\<lambda>s. nansum (map (attributed s)
                      (filter (\<lambda>r. week_of (fst (fst r)) = k) rows)))\<rparr>)
             (weeks_spanned (map (\<lambda>r. fst (fst r)) rows))"
  using assms
  by (auto simp: calculate_home_source_usage_def Let_def split: sum.splits if_splits)

lemma usage_row:
  assumes "calculate_home_source_usage raw grid = Inr tbl" "w \<in> set tbl"
    "align (open_smart_meter raw) grid = Inr rows"
  shows "usage w s = nansum (map (attributed s)
     (filter (\<lambda>r. in_week_ending (usage_week w) (fst (fst r))) rows))"
proof -
  let ?F = "\<lambda>rows k. \<lparr>usage_week = week_end k,
                   usage = (\<lambda>s. nansum (map (attributed s)
                      (filter (\<lambda>r. week_of (fst (fst r)) = k) rows)))\<rparr>"
  from assms(1) obtain rows' where a: "align (open_smart_meter raw) grid = Inr rows'"
    and t: "tbl = map (?F rows') (weeks_spanned (map (\<lambda>r. fst (fst r)) rows'))"
    by (rule usage_Inr)
  have "rows' = rows" using a assms(3) by simp
  then have "set tbl = ?F rows ` set (weeks_spanned (map (\<lambda>r. fst (fst r)) rows))"
    using t by (simp only: set_map)
  then obtain k where w: "w = ?F rows k" using assms(2) by blast
  have "usage w s = nansum (map (attributed s) (filter (\<lambda>r. week_of (fst (fst r)) = k) rows))"
    unfolding w by simp
  moreover have "usage_week w = week_end k" unfolding w by simp
  ultimately show ?thesis by (simp only: week_of_calendar)
qed

lemma usage_returns:
  assumes "distinct (map fst raw)" "distinct (map DATETIME grid)" "grid \<noteq> []"
  shows "\<exists>tbl. calculate_home_source_usage raw grid = Inr tbl"
proof -
  let ?df = "open_smart_meter raw"
  have idx: "map fst ?df = map fst raw" by (rule open_smart_meter_index)
  have "\<exists>rows. align ?df grid = Inr rows \<and> rows \<noteq> []"
  proof (cases "?df = []")
    case True
    then show ?thesis using assms(2,3) by (simp add: align_def)
  next
    case ne: False
    show ?thesis
    proof (cases "map fst ?df = map DATETIME grid")
      case True
      then have "align ?df grid = Inr (zip ?df (map Some grid))"
        using ne by (simp add: align_def)
      moreover have "zip ?df (map Some grid) \<noteq> []"
        using ne assms(3) by (cases ?df; cases grid) simp_all
      ultimately show ?thesis by blast
    next
      case False
      then have "align ?df grid
          = Inr (map (\<lambda>r. (r, find (\<lambda>g. DATETIME g = fst r) grid)) ?df)"
        using ne assms(1,2) idx by (simp add: align_def)
      then show ?thesis using ne by simp
    qed
  qed
  then obtain rows where "align ?df grid = Inr rows" "rows \<noteq> []" by blast
  then show ?thesis
    by (simp add: calculate_home_source_usage_def)
qed

lemma usage_weeks:
  assumes "calculate_home_source_usage raw grid = Inr tbl"
    "align (open_smart_meter raw) grid = Inr rows"
  shows "map usage_week tbl = map week_end (weeks_spanned (map (\<lambda>r. fst (fst r)) rows))"
proof -
  let ?F = "\<lambda>rows k. \<lparr>usage_week = week_end k,
                   usage = (\<lambda>s. nansum (map (attributed s)
                      (filter (\<lambda>r. week_of (fst (fst r)) = k) rows)))\<rparr>"
  from assms(1) obtain rows' where a: "align (open_smart_meter raw) grid = Inr rows'"
    and t: "tbl = map (?F rows') (weeks_spanned (map (\<lambda>r. fst (fst r)) rows'))"
    by (rule usage_Inr)
  have "rows' = rows" using a assms(2) by simp
  then show ?thesis unfolding t by (simp add: comp_def)
qed






section \<open>The cleaned series\<close>

text \<open>
  C2 (amended). The cleaned series has the timestamps of the raw one, and no value above
  15. A reading that is present and at most 15 is unchanged. A reading that is missing or
  above 15 becomes: between the nearest kept readings \<open>a\<close> (row \<open>l\<close>) and \<open>b\<close> (row \<open>r\<close>) around
  it, the value on the straight line from \<open>a\<close> to \<open>b\<close> by row position; after the last
  kept reading, that reading; before the first kept reading, it stays missing.
\<close>

theorem open_smart_meter_cleaned:
  "map fst (open_smart_meter raw) = map fst raw \<and>
   (\<forall>i v. i < length raw \<and> snd (open_smart_meter raw ! i) = Some v \<longrightarrow> v \<le> 15) \<and>
   (\<forall>i. i < length raw \<and> plausible (snd (raw ! i)) \<longrightarrow>
        snd (open_smart_meter raw ! i) = snd (raw ! i)) \<and>
   (\<forall>l i r a b. l < i \<and> i < r \<and> r < length raw \<and>
        snd (raw ! l) = Some a \<and> a \<le> 15 \<and> snd (raw ! r) = Some b \<and> b \<le> 15 \<and>
        (\<forall>j. l < j \<and> j < r \<longrightarrow> \<not> plausible (snd (raw ! j))) \<longrightarrow>
        snd (open_smart_meter raw ! i) = Some ((b - a) / real (r - l) * real (i - l) + a)) \<and>
   (\<forall>l i a. l < i \<and> i < length raw \<and> snd (raw ! l) = Some a \<and> a \<le> 15 \<and>
        (\<forall>j. l < j \<and> j < length raw \<longrightarrow> \<not> plausible (snd (raw ! j))) \<longrightarrow>
        snd (open_smart_meter raw ! i) = Some a) \<and>
   (\<forall>i. i < length raw \<and> (\<forall>j. j \<le> i \<longrightarrow> \<not> plausible (snd (raw ! j))) \<longrightarrow>
        snd (open_smart_meter raw ! i) = None)"
proof -
  let ?cs = "map (\<lambda>r. mask_errors (snd r)) raw"
  have cs: "\<And>j. j < length raw \<Longrightarrow> ?cs ! j = (if plausible (snd (raw ! j)) then snd (raw ! j) else None)"
    by (simp add: mask_errors_plausible)
  have len: "length ?cs = length raw" by simp
  have 1: "map fst (open_smart_meter raw) = map fst raw"
    by (rule open_smart_meter_index)
  have 2: "\<forall>i v. i < length raw \<and> snd (open_smart_meter raw ! i) = Some v \<longrightarrow> v \<le> 15"
  proof (intro allI impI)
    fix i v assume a: "i < length raw \<and> snd (open_smart_meter raw ! i) = Some v"
    then have "interpolate ?cs ! i = Some v"
      using open_smart_meter_nth [of i raw] by simp
    moreover have "i < length (interpolate ?cs)" using a by (simp add: length_interpolate)
    ultimately have "Some v \<in> set (interpolate ?cs)" by (metis nth_mem)
    moreover have "\<forall>v. Some v \<in> set ?cs \<longrightarrow> v \<le> 15"
      by (auto dest: mask_errors_upper [OF sym])
    ultimately show "v \<le> 15" by (rule interpolate_upper [rotated])
  qed
  have 3: "\<forall>i. i < length raw \<and> plausible (snd (raw ! i)) \<longrightarrow>
        snd (open_smart_meter raw ! i) = snd (raw ! i)"
  proof (intro allI impI)
    fix i assume a: "i < length raw \<and> plausible (snd (raw ! i))"
    then obtain x where x: "snd (raw ! i) = Some x" by (cases "snd (raw ! i)") auto
    have "?cs ! i = Some x" using a x cs by simp
    then have "interpolate ?cs ! i = Some x" using a by (intro interpolate_kept) simp_all
    then show "snd (open_smart_meter raw ! i) = snd (raw ! i)"
      using a x by (simp add: open_smart_meter_nth)
  qed
  have 4: "\<forall>l i r a b. l < i \<and> i < r \<and> r < length raw \<and>
        snd (raw ! l) = Some a \<and> a \<le> 15 \<and> snd (raw ! r) = Some b \<and> b \<le> 15 \<and>
        (\<forall>j. l < j \<and> j < r \<longrightarrow> \<not> plausible (snd (raw ! j))) \<longrightarrow>
        snd (open_smart_meter raw ! i) = Some ((b - a) / real (r - l) * real (i - l) + a)"
  proof (intro allI impI)
    fix l i r a b
    assume a: "l < i \<and> i < r \<and> r < length raw \<and>
        snd (raw ! l) = Some a \<and> a \<le> 15 \<and> snd (raw ! r) = Some b \<and> b \<le> 15 \<and>
        (\<forall>j. l < j \<and> j < r \<longrightarrow> \<not> plausible (snd (raw ! j)))"
    then have l: "?cs ! l = Some a" and r: "?cs ! r = Some b" using cs by simp_all
    have gap: "\<forall>j. l < j \<and> j < r \<longrightarrow> ?cs ! j = None" using a cs by simp
    have "interpolate ?cs ! i = Some ((b - a) / real (r - l) * real (i - l) + a)"
      using a by (intro interpolate_between [OF _ _ _ l r gap]) simp_all
    then show "snd (open_smart_meter raw ! i) = Some ((b - a) / real (r - l) * real (i - l) + a)"
      using a by (simp add: open_smart_meter_nth)
  qed
  have 5: "\<forall>l i a. l < i \<and> i < length raw \<and> snd (raw ! l) = Some a \<and> a \<le> 15 \<and>
        (\<forall>j. l < j \<and> j < length raw \<longrightarrow> \<not> plausible (snd (raw ! j))) \<longrightarrow>
        snd (open_smart_meter raw ! i) = Some a"
  proof (intro allI impI)
    fix l i a
    assume a: "l < i \<and> i < length raw \<and> snd (raw ! l) = Some a \<and> a \<le> 15 \<and>
        (\<forall>j. l < j \<and> j < length raw \<longrightarrow> \<not> plausible (snd (raw ! j)))"
    then have l: "?cs ! l = Some a" using cs by simp
    have gap: "\<forall>j. l < j \<and> j < length ?cs \<longrightarrow> ?cs ! j = None" using a cs by simp
    have "interpolate ?cs ! i = Some a"
      using a by (intro interpolate_after_last [OF _ _ l gap]) simp_all
    then show "snd (open_smart_meter raw ! i) = Some a"
      using a by (simp add: open_smart_meter_nth)
  qed
  have 6: "\<forall>i. i < length raw \<and> (\<forall>j. j \<le> i \<longrightarrow> \<not> plausible (snd (raw ! j))) \<longrightarrow>
        snd (open_smart_meter raw ! i) = None"
  proof (intro allI impI)
    fix i
    assume a: "i < length raw \<and> (\<forall>j. j \<le> i \<longrightarrow> \<not> plausible (snd (raw ! j)))"
    have gap: "\<forall>j. j \<le> i \<longrightarrow> ?cs ! j = None" using a cs by simp
    have "interpolate ?cs ! i = None"
      using a by (intro interpolate_before_first [OF _ gap]) simp
    then show "snd (open_smart_meter raw ! i) = None"
      using a by (simp add: open_smart_meter_nth)
  qed
  from 1 2 3 4 5 6 show ?thesis by blast
qed

theorem open_smart_meter_cleaned_witness:
  "\<not> plausible (snd ([(0::int, Some (20::real)), (1800, Some 1), (3600, None), (5400, Some 16),
        (7200, Some 4), (9000, Some 99)] ! 2)) \<and>
   \<not> plausible (snd ([(0::int, Some (20::real)), (1800, Some 1), (3600, None), (5400, Some 16),
        (7200, Some 4), (9000, Some 99)] ! 3)) \<and>
   snd (open_smart_meter [(0::int, Some (20::real)), (1800, Some 1), (3600, None), (5400, Some 16),
        (7200, Some 4), (9000, Some 99)] ! 2) = Some 2 \<and>
   snd (open_smart_meter [(0::int, Some (20::real)), (1800, Some 1), (3600, None), (5400, Some 16),
        (7200, Some 4), (9000, Some 99)] ! 3) = Some 3 \<and>
   snd (open_smart_meter [(0::int, Some (20::real)), (1800, Some 1), (3600, None), (5400, Some 16),
        (7200, Some 4), (9000, Some 99)] ! 5) = Some 4 \<and>
   snd (open_smart_meter [(0::int, Some (20::real)), (1800, Some 1), (3600, None), (5400, Some 16),
        (7200, Some 4), (9000, Some 99)] ! 0) = None"
proof -
  let ?raw = "[(0, Some 20), (1800, Some 1), (3600, None), (5400, Some 16),
        (7200, Some 4), (9000, Some 99)] :: series"
  note T = open_smart_meter_cleaned [of ?raw]
  have p2: "\<not> plausible (snd (?raw ! 2))" and p3: "\<not> plausible (snd (?raw ! 3))"
    and p5: "\<not> plausible (snd (?raw ! 5))" and p0: "\<not> plausible (snd (?raw ! 0))"
    by simp_all
  have gap: "\<forall>j. (1::nat) < j \<and> j < 4 \<longrightarrow> \<not> plausible (snd (?raw ! j))"
  proof (intro allI impI)
    fix j :: nat assume "1 < j \<and> j < 4"
    then have "j = 2 \<or> j = 3" by arith
    then show "\<not> plausible (snd (?raw ! j))" using p2 p3 by blast
  qed
  have tail: "\<forall>j. (4::nat) < j \<and> j < length ?raw \<longrightarrow> \<not> plausible (snd (?raw ! j))"
  proof (intro allI impI)
    fix j :: nat assume "4 < j \<and> j < length ?raw"
    then have "j = 5" by simp
    then show "\<not> plausible (snd (?raw ! j))" using p5 by blast
  qed
  have lead: "\<forall>j. j \<le> (0::nat) \<longrightarrow> \<not> plausible (snd (?raw ! j))"
    using p0 by simp
  from T have B: "\<forall>l i r a b. l < i \<and> i < r \<and> r < length ?raw \<and>
        snd (?raw ! l) = Some a \<and> a \<le> 15 \<and> snd (?raw ! r) = Some b \<and> b \<le> 15 \<and>
        (\<forall>j. l < j \<and> j < r \<longrightarrow> \<not> plausible (snd (?raw ! j))) \<longrightarrow>
        snd (open_smart_meter ?raw ! i) = Some ((b - a) / real (r - l) * real (i - l) + a)"
    by blast
  from T have A: "\<forall>l i a. l < i \<and> i < length ?raw \<and> snd (?raw ! l) = Some a \<and> a \<le> 15 \<and>
        (\<forall>j. l < j \<and> j < length ?raw \<longrightarrow> \<not> plausible (snd (?raw ! j))) \<longrightarrow>
        snd (open_smart_meter ?raw ! i) = Some a"
    by blast
  from T have L: "\<forall>i. i < length ?raw \<and> (\<forall>j. j \<le> i \<longrightarrow> \<not> plausible (snd (?raw ! j))) \<longrightarrow>
        snd (open_smart_meter ?raw ! i) = None"
    by blast
  have r2: "snd (open_smart_meter ?raw ! 2) = Some 2"
    using B [rule_format, of 1 2 4 1 4] gap by simp
  have r3: "snd (open_smart_meter ?raw ! 3) = Some 3"
    using B [rule_format, of 1 3 4 1 4] gap by simp
  have r5: "snd (open_smart_meter ?raw ! 5) = Some 4"
    using A [rule_format, of 4 5 4] tail by simp
  have r0: "snd (open_smart_meter ?raw ! 0) = None"
    using L [rule_format, of 0] lead by simp
  from p2 p3 r2 r3 r5 r0 show ?thesis by blast
qed

theorem open_smart_meter_leading_counterexample:
  "snd ([(0::int, Some (20::real)), (1800, Some 1), (3600, Some 2)] ! 0) = Some 20 \<and>
   open_smart_meter [(0, Some 20), (1800, Some 1), (3600, Some 2)]
     = [(0, None), (1800, Some 1), (3600, Some 2)]"
  by (simp add: open_smart_meter_def)

text \<open>
  C9 (amended). No lower bound is enforced: a negative reading is returned unchanged. When
  every raw reading that is present and at most 15 is at least 0, every value of the
  cleaned series that is not missing is at least 0.
\<close>

theorem open_smart_meter_nonneg:
  "(\<forall>i x. i < length raw \<and> snd (raw ! i) = Some x \<and> x < 0 \<longrightarrow>
        snd (open_smart_meter raw ! i) = Some x) \<and>
   ((\<forall>j x. j < length raw \<and> snd (raw ! j) = Some x \<and> x \<le> 15 \<longrightarrow> 0 \<le> x) \<longrightarrow>
    (\<forall>i v. i < length raw \<and> snd (open_smart_meter raw ! i) = Some v \<longrightarrow> 0 \<le> v))"
proof -
  let ?cs = "map (\<lambda>r. mask_errors (snd r)) raw"
  have 1: "\<forall>i x. i < length raw \<and> snd (raw ! i) = Some x \<and> x < 0 \<longrightarrow>
        snd (open_smart_meter raw ! i) = Some x"
  proof (intro allI impI)
    fix i x assume a: "i < length raw \<and> snd (raw ! i) = Some x \<and> x < 0"
    then have "?cs ! i = Some x" by simp
    then have "interpolate ?cs ! i = Some x" using a by (intro interpolate_kept) simp_all
    then show "snd (open_smart_meter raw ! i) = Some x"
      using a by (simp add: open_smart_meter_nth)
  qed
  have 2: "(\<forall>j x. j < length raw \<and> snd (raw ! j) = Some x \<and> x \<le> 15 \<longrightarrow> 0 \<le> x) \<longrightarrow>
    (\<forall>i v. i < length raw \<and> snd (open_smart_meter raw ! i) = Some v \<longrightarrow> 0 \<le> v)"
  proof (intro allI impI)
    fix i v
    assume h: "\<forall>j x. j < length raw \<and> snd (raw ! j) = Some x \<and> x \<le> 15 \<longrightarrow> 0 \<le> x"
      and a: "i < length raw \<and> snd (open_smart_meter raw ! i) = Some v"
    have low: "\<forall>v. Some v \<in> set ?cs \<longrightarrow> 0 \<le> v"
    proof (intro allI impI)
      fix u assume "Some u \<in> set ?cs"
      then obtain j where j: "j < length raw" "mask_errors (snd (raw ! j)) = Some u"
        by (auto simp: in_set_conv_nth)
      then have "snd (raw ! j) = Some u \<and> u \<le> 15"
        by (cases "snd (raw ! j)") (auto split: if_splits)
      then show "0 \<le> u" using h j(1) by blast
    qed
    from a have "interpolate ?cs ! i = Some v"
      using open_smart_meter_nth [of i raw] by simp
    moreover have "i < length (interpolate ?cs)" using a by (simp add: length_interpolate)
    ultimately have "Some v \<in> set (interpolate ?cs)" by (metis nth_mem)
    with low show "0 \<le> v" by (rule interpolate_lower)
  qed
  from 1 2 show ?thesis by blast
qed

theorem open_smart_meter_nonneg_witness:
  "snd (open_smart_meter [(0, Some (- 2)), (1800, None), (3600, Some 4)] ! 0) = Some (- 2) \<and>
   0 \<le> the (snd (open_smart_meter [(0, Some 1), (1800, Some 16), (3600, Some 4)] ! 1))"
proof -
  let ?neg = "[(0, Some (- 2)), (1800, None), (3600, Some 4)] :: series"
  let ?raw = "[(0, Some 1), (1800, Some 16), (3600, Some 4)] :: series"
  have "snd (open_smart_meter ?neg ! 0) = Some (- 2)"
    using open_smart_meter_nonneg [of ?neg, THEN conjunct1, rule_format, of 0 "- 2"] by simp
  moreover have h: "\<forall>j x. j < length ?raw \<and> snd (?raw ! j) = Some x \<and> x \<le> 15 \<longrightarrow> 0 \<le> x"
  proof (intro allI impI)
    fix j :: nat and x :: real
    assume a: "j < length ?raw \<and> snd (?raw ! j) = Some x \<and> x \<le> 15"
    then have "j = 0 \<or> j = 1 \<or> j = 2" by auto
    then show "0 \<le> x" using a by auto
  qed
  have v: "snd (open_smart_meter ?raw ! 1) = Some (5 / 2)"
    by (simp add: open_smart_meter_def)
  have "0 \<le> the (snd (open_smart_meter ?raw ! 1))"
    using open_smart_meter_nonneg [of ?raw, THEN conjunct2, THEN mp, OF h, rule_format, of 1 "5 / 2"] v
    by simp
  ultimately show ?thesis by blast
qed

theorem open_smart_meter_negative_counterexample:
  "open_smart_meter [(0, Some (1 / 2)), (1800, Some (- 1)), (3600, Some 1)]
     = [(0, Some (1 / 2)), (1800, Some (- 1)), (3600, Some 1)] \<and>
   \<not> 0 \<le> the (snd (open_smart_meter [(0, Some (1 / 2)), (1800, Some (- 1)), (3600, Some 1)] ! 1))"
  by (simp add: open_smart_meter_def)

section \<open>The joined frame\<close>




section \<open>Weekly intensities\<close>

text \<open>
  C1 (amended). Every row of the weekly table is labelled by a Sunday, and over the rows
  of the joined frame in the calendar week that ends on that Sunday its home intensity
  is the sum of imports times carbon intensity divided by the sum of imports, and its
  grid intensity the sum of generation times carbon intensity divided by the sum of
  generation (a missing value adds nothing to a sum). This is the load-weighted average.
  It need not differ from the arithmetic mean of the week's intensities when the energy
  values vary within the week: with the imports 1, 2 and 1 at the intensities 100, 150
  and 200 the weekly home intensity is 150, the arithmetic mean of the three.
\<close>

theorem weekly_intensity_load_weighted:
  fixes raw :: series and grid :: grid
  defines "J \<equiv> join_inner (open_smart_meter raw) grid"
  shows "\<forall>weekly. df_weekly raw grid = Inr weekly \<longrightarrow>
    (\<forall>w \<in> set weekly.
     weekday (week w) = 0 \<and>
     home_carbon_intensity w =
       fdiv (Num (\<Sum>r\<leftarrow>filter (\<lambda>r. in_week_ending (week w) (ts r)) J.
                    cell_val (home_imports r) * cell_val (carbon_intensity r)))
            (Num (\<Sum>r\<leftarrow>filter (\<lambda>r. in_week_ending (week w) (ts r)) J.
                    cell_val (home_imports r))) \<and>
     grid_carbon_intensity w =
       fdiv (Num (\<Sum>r\<leftarrow>filter (\<lambda>r. in_week_ending (week w) (ts r)) J.
                    cell_val (grid_generation r) * cell_val (carbon_intensity r)))
            (Num (\<Sum>r\<leftarrow>filter (\<lambda>r. in_week_ending (week w) (ts r)) J.
                    cell_val (grid_generation r))))"
proof (intro allI impI ballI)
  fix weekly w assume "df_weekly raw grid = Inr weekly" "w \<in> set weekly"
  then obtain k where w: "w = weekly_row_of J k"
    unfolding J_def by (rule df_weekly_row)
  let ?rows = "filter (\<lambda>r. in_week_ending (week w) (ts r)) J"
  have rows: "week_rows k J = ?rows"
    by (simp add: w weekly_row_of_week week_rows_calendar)
  have sunday: "weekday (week w) = 0"
    by (simp add: w weekly_row_of_week week_end_sunday)
  have home: "home_carbon_intensity w =
       fdiv (Num (\<Sum>r\<leftarrow>?rows. cell_val (home_imports r) * cell_val (carbon_intensity r)))
            (Num (\<Sum>r\<leftarrow>?rows. cell_val (home_imports r)))"
    unfolding rows [symmetric] unfolding w
    by (simp only: weekly_row_of_home_intensity weekly_row_of_sums)
  have grid: "grid_carbon_intensity w =
       fdiv (Num (\<Sum>r\<leftarrow>?rows. cell_val (grid_generation r) * cell_val (carbon_intensity r)))
            (Num (\<Sum>r\<leftarrow>?rows. cell_val (grid_generation r)))"
    unfolding rows [symmetric] unfolding w
    by (simp only: weekly_row_of_grid_intensity weekly_row_of_sums)
  from sunday home grid
  show "weekday (week w) = 0 \<and>
     home_carbon_intensity w =
       fdiv (Num (\<Sum>r\<leftarrow>?rows. cell_val (home_imports r) * cell_val (carbon_intensity r)))
            (Num (\<Sum>r\<leftarrow>?rows. cell_val (home_imports r))) \<and>
     grid_carbon_intensity w =
       fdiv (Num (\<Sum>r\<leftarrow>?rows. cell_val (grid_generation r) * cell_val (carbon_intensity r)))
            (Num (\<Sum>r\<leftarrow>?rows. cell_val (grid_generation r)))"
    by blast
qed

theorem weekly_intensity_load_weighted_witness:
  "df_weekly [(0, Some 2), (1800, Some 6)] [ex_grid_row 0 100 10, ex_grid_row 1800 200 30]
     = Inr [weekly_row_of (join_inner (open_smart_meter [(0, Some 2), (1800, Some 6)])
              [ex_grid_row 0 100 10, ex_grid_row 1800 200 30]) 0] \<and>
   week (weekly_row_of (join_inner (open_smart_meter [(0, Some 2), (1800, Some 6)])
              [ex_grid_row 0 100 10, ex_grid_row 1800 200 30]) 0) = 259200 \<and>
   weekday 259200 = 0 \<and>
   home_carbon_intensity (weekly_row_of (join_inner (open_smart_meter [(0, Some 2), (1800, Some 6)])
              [ex_grid_row 0 100 10, ex_grid_row 1800 200 30]) 0) = Num 175 \<and>
   grid_carbon_intensity (weekly_row_of (join_inner (open_smart_meter [(0, Some 2), (1800, Some 6)])
              [ex_grid_row 0 100 10, ex_grid_row 1800 200 30]) 0) = Num 175"
proof -
  let ?raw = "[(0, Some 2), (1800, Some 6)] :: series"
  let ?grid = "[ex_grid_row 0 100 10, ex_grid_row 1800 200 30]"
  let ?J = "join_inner (open_smart_meter ?raw) ?grid"
  let ?w = "weekly_row_of ?J 0"
  have J: "?J = [\<lparr>ts = 0, home_imports = Some 2, carbon_intensity = Some 100,
                    grid_generation = Some 10\<rparr>,
                 \<lparr>ts = 1800, home_imports = Some 6, carbon_intensity = Some 200,
                    grid_generation = Some 30\<rparr>]"
    by (simp add: join_inner_def open_smart_meter_def ex_grid_row_def)
  have wks: "weeks_spanned (map ts ?J) = [0]" unfolding J by (simp add: week_of_def)
  have tbl: "df_weekly ?raw ?grid = Inr [?w]"
    using df_weekly_returns [of ?raw ?grid] unfolding wks by simp
  have wk: "week ?w = 259200" by (simp add: weekly_row_of_week week_end_def)
  have rows: "filter (\<lambda>r. in_week_ending (week ?w) (ts r)) ?J = ?J"
    unfolding wk unfolding J by (simp add: in_week_ending_def)
  have mem: "?w \<in> set [?w]" by simp
  note T = weekly_intensity_load_weighted [of ?raw ?grid, rule_format, OF tbl mem]
  have sunday: "weekday 259200 = 0" using T [THEN conjunct1] wk by simp
  have h: "home_carbon_intensity ?w = Num 175"
    using T [THEN conjunct2, THEN conjunct1] unfolding rows unfolding J by simp
  have g: "grid_carbon_intensity ?w = Num 175"
    using T [THEN conjunct2, THEN conjunct2] unfolding rows unfolding J by simp
  from tbl wk sunday h g show ?thesis by blast
qed

theorem weekly_intensity_equals_mean_counterexample:
  "map home_imports (join_inner (open_smart_meter [(0, Some 1), (1800, Some 2), (3600, Some 1)])
      [ex_grid_row 0 100 10, ex_grid_row 1800 150 10, ex_grid_row 3600 200 10])
     = [Some 1, Some 2, Some 1] \<and>
   map carbon_intensity (join_inner (open_smart_meter [(0, Some 1), (1800, Some 2), (3600, Some 1)])
      [ex_grid_row 0 100 10, ex_grid_row 1800 150 10, ex_grid_row 3600 200 10])
     = [Some 100, Some 150, Some 200] \<and>
   map_sum id (map home_carbon_intensity) (df_weekly [(0, Some 1), (1800, Some 2), (3600, Some 1)]
      [ex_grid_row 0 100 10, ex_grid_row 1800 150 10, ex_grid_row 3600 200 10])
     = Inr [Num ((100 + 150 + 200) / 3)]"
  by (simp add: df_weekly_def join_inner_def open_smart_meter_def ex_grid_row_def
      weekly_row_of_def week_rows_def week_of_def nansum_def home_carbon_def grid_carbon_def
      Let_def)

text \<open>
  C7 (amended). With at least one data row in each file \<open>carbon_mix\<close> computes the weekly
  table without raising. In a week whose summed divisor (imports for the home, generation
  for the grid) is zero the intensity is not a number: it is NaN when the week's summed
  carbon is zero as well, \<open>+inf\<close> when that sum is positive and \<open>-inf\<close> when it is
  negative. It is NaN for a week without rows, and whenever none of the week's energy
  values is negative. The row of a week is computed from the rows of that week alone.
\<close>

theorem zero_divisor_week:
  fixes raw :: series and grid :: grid
  defines "J \<equiv> join_inner (open_smart_meter raw) grid"
  shows "(raw \<noteq> [] \<and> grid \<noteq> [] \<longrightarrow> (\<exists>weekly. df_weekly raw grid = Inr weekly)) \<and>
   (\<forall>weekly. df_weekly raw grid = Inr weekly \<longrightarrow> (\<forall>w \<in> set weekly.
     (sum_imports w = Num 0 \<longrightarrow>
        (fl_val (sum_home_carbon w) = 0 \<longrightarrow> home_carbon_intensity w = NaN) \<and>
        (0 < fl_val (sum_home_carbon w) \<longrightarrow> home_carbon_intensity w = PosInf) \<and>
        (fl_val (sum_home_carbon w) < 0 \<longrightarrow> home_carbon_intensity w = NegInf)) \<and>
     (sum_generation w = Num 0 \<longrightarrow>
        (fl_val (sum_grid_carbon w) = 0 \<longrightarrow> grid_carbon_intensity w = NaN) \<and>
        (0 < fl_val (sum_grid_carbon w) \<longrightarrow> grid_carbon_intensity w = PosInf) \<and>
        (fl_val (sum_grid_carbon w) < 0 \<longrightarrow> grid_carbon_intensity w = NegInf)) \<and>
     (filter (\<lambda>r. in_week_ending (week w) (ts r)) J = [] \<longrightarrow>
        home_carbon_intensity w = NaN \<and> grid_carbon_intensity w = NaN) \<and>
     (sum_imports w = Num 0 \<and>
      (\<forall>r \<in> set (filter (\<lambda>r. in_week_ending (week w) (ts r)) J).
          \<forall>x. home_imports r = Some x \<longrightarrow> 0 \<le> x) \<longrightarrow> home_carbon_intensity w = NaN) \<and>
     (sum_generation w = Num 0 \<and>
      (\<forall>r \<in> set (filter (\<lambda>r. in_week_ending (week w) (ts r)) J).
          \<forall>x. grid_generation r = Some x \<longrightarrow> 0 \<le> x) \<longrightarrow> grid_carbon_intensity w = NaN) \<and>
     w = weekly_row_of (filter (\<lambda>r. in_week_ending (week w) (ts r)) J) (week_of (week w))))"
    (is "?returns \<and> ?weeks")
proof (rule conjI)
  show ?returns using df_weekly_returns [of raw grid] by blast
next
  show ?weeks
  proof (intro allI impI ballI)
  fix weekly w assume "df_weekly raw grid = Inr weekly" "w \<in> set weekly"
  then obtain k where w: "w = weekly_row_of J k"
    unfolding J_def by (rule df_weekly_row)
  let ?rows = "filter (\<lambda>r. in_week_ending (week w) (ts r)) J"
  have rows: "week_rows k J = ?rows"
    by (simp add: w weekly_row_of_week week_rows_calendar)
  have hi: "home_carbon_intensity w = fdiv (sum_home_carbon w) (sum_imports w)"
    and gi: "grid_carbon_intensity w = fdiv (sum_grid_carbon w) (sum_generation w)"
    unfolding w by (rule weekly_row_of_home_intensity, rule weekly_row_of_grid_intensity)
  have si: "sum_imports w = Num (\<Sum>r\<leftarrow>?rows. cell_val (home_imports r))"
    and sg: "sum_generation w = Num (\<Sum>r\<leftarrow>?rows. cell_val (grid_generation r))"
    and sh: "sum_home_carbon w
       = Num (\<Sum>r\<leftarrow>?rows. cell_val (home_imports r) * cell_val (carbon_intensity r))"
    and sc: "sum_grid_carbon w
       = Num (\<Sum>r\<leftarrow>?rows. cell_val (grid_generation r) * cell_val (carbon_intensity r))"
    unfolding rows [symmetric] unfolding w by (simp_all only: weekly_row_of_sums)
  have 1: "sum_imports w = Num 0 \<longrightarrow>
        (fl_val (sum_home_carbon w) = 0 \<longrightarrow> home_carbon_intensity w = NaN) \<and>
        (0 < fl_val (sum_home_carbon w) \<longrightarrow> home_carbon_intensity w = PosInf) \<and>
        (fl_val (sum_home_carbon w) < 0 \<longrightarrow> home_carbon_intensity w = NegInf)"
    unfolding hi sh by simp
  have 2: "sum_generation w = Num 0 \<longrightarrow>
        (fl_val (sum_grid_carbon w) = 0 \<longrightarrow> grid_carbon_intensity w = NaN) \<and>
        (0 < fl_val (sum_grid_carbon w) \<longrightarrow> grid_carbon_intensity w = PosInf) \<and>
        (fl_val (sum_grid_carbon w) < 0 \<longrightarrow> grid_carbon_intensity w = NegInf)"
    unfolding gi sc by simp
  have 3: "?rows = [] \<longrightarrow> home_carbon_intensity w = NaN \<and> grid_carbon_intensity w = NaN"
    unfolding hi gi si sg sh sc by simp
  have 4: "sum_imports w = Num 0 \<and>
      (\<forall>r \<in> set ?rows. \<forall>x. home_imports r = Some x \<longrightarrow> 0 \<le> x) \<longrightarrow> home_carbon_intensity w = NaN"
  proof
    assume a: "sum_imports w = Num 0 \<and>
      (\<forall>r \<in> set ?rows. \<forall>x. home_imports r = Some x \<longrightarrow> 0 \<le> x)"
    then have z: "(\<Sum>r\<leftarrow>?rows. cell_val (home_imports r)) = 0" using si by simp
    have "(\<Sum>r\<leftarrow>?rows. cell_val (home_imports r) * cell_val (carbon_intensity r)) = 0"
      using a by (intro sum_list_nonneg_zero [OF _ z]) blast
    then show "home_carbon_intensity w = NaN" unfolding hi sh si z by simp
  qed
  have 5: "sum_generation w = Num 0 \<and>
      (\<forall>r \<in> set ?rows. \<forall>x. grid_generation r = Some x \<longrightarrow> 0 \<le> x) \<longrightarrow> grid_carbon_intensity w = NaN"
  proof
    assume a: "sum_generation w = Num 0 \<and>
      (\<forall>r \<in> set ?rows. \<forall>x. grid_generation r = Some x \<longrightarrow> 0 \<le> x)"
    then have z: "(\<Sum>r\<leftarrow>?rows. cell_val (grid_generation r)) = 0" using sg by simp
    have "(\<Sum>r\<leftarrow>?rows. cell_val (grid_generation r) * cell_val (carbon_intensity r)) = 0"
      using a by (intro sum_list_nonneg_zero [OF _ z]) blast
    then show "grid_carbon_intensity w = NaN" unfolding gi sc sg z by simp
  qed
  have 6: "w = weekly_row_of ?rows (week_of (week w))"
    unfolding rows [symmetric] unfolding w
    by (simp only: weekly_row_of_week week_of_week_end weekly_row_of_local)
  from 1 2 3 4 5 6
  show "(sum_imports w = Num 0 \<longrightarrow>
        (fl_val (sum_home_carbon w) = 0 \<longrightarrow> home_carbon_intensity w = NaN) \<and>
        (0 < fl_val (sum_home_carbon w) \<longrightarrow> home_carbon_intensity w = PosInf) \<and>
        (fl_val (sum_home_carbon w) < 0 \<longrightarrow> home_carbon_intensity w = NegInf)) \<and>
     (sum_generation w = Num 0 \<longrightarrow>
        (fl_val (sum_grid_carbon w) = 0 \<longrightarrow> grid_carbon_intensity w = NaN) \<and>
        (0 < fl_val (sum_grid_carbon w) \<longrightarrow> grid_carbon_intensity w = PosInf) \<and>
        (fl_val (sum_grid_carbon w) < 0 \<longrightarrow> grid_carbon_intensity w = NegInf)) \<and>
     (?rows = [] \<longrightarrow> home_carbon_intensity w = NaN \<and> grid_carbon_intensity w = NaN) \<and>
     (sum_imports w = Num 0 \<and>
      (\<forall>r \<in> set ?rows. \<forall>x. home_imports r = Some x \<longrightarrow> 0 \<le> x) \<longrightarrow> home_carbon_intensity w = NaN) \<and>
     (sum_generation w = Num 0 \<and>
      (\<forall>r \<in> set ?rows. \<forall>x. grid_generation r = Some x \<longrightarrow> 0 \<le> x) \<longrightarrow> grid_carbon_intensity w = NaN) \<and>
     w = weekly_row_of ?rows (week_of (week w))"
    by blast
  qed
qed

theorem zero_divisor_week_witness:
  "map_sum id (map sum_imports) (df_weekly [(0, Some 0), (1209600, Some 2)]
      [ex_grid_row 0 100 10, ex_grid_row 1209600 200 20]) = Inr [Num 0, Num 0, Num 2] \<and>
   map_sum id (map sum_home_carbon) (df_weekly [(0, Some 0), (1209600, Some 2)]
      [ex_grid_row 0 100 10, ex_grid_row 1209600 200 20]) = Inr [Num 0, Num 0, Num 400] \<and>
   map_sum id (map home_carbon_intensity) (df_weekly [(0, Some 0), (1209600, Some 2)]
      [ex_grid_row 0 100 10, ex_grid_row 1209600 200 20]) = Inr [NaN, NaN, Num 200] \<and>
   map_sum id (map grid_carbon_intensity) (df_weekly [(0, Some 0), (1209600, Some 2)]
      [ex_grid_row 0 100 10, ex_grid_row 1209600 200 20]) = Inr [Num 100, NaN, Num 200]"
proof -
  let ?raw = "[(0, Some 0), (1209600, Some 2)] :: series"
  let ?grid = "[ex_grid_row 0 100 10, ex_grid_row 1209600 200 20]"
  let ?J = "join_inner (open_smart_meter ?raw) ?grid"
  let ?w0 = "weekly_row_of ?J 0"
  let ?w1 = "weekly_row_of ?J 1"
  let ?w2 = "weekly_row_of ?J 2"
  have J: "?J = [\<lparr>ts = 0, home_imports = Some 0, carbon_intensity = Some 100,
                    grid_generation = Some 10\<rparr>,
                 \<lparr>ts = 1209600, home_imports = Some 2, carbon_intensity = Some 200,
                    grid_generation = Some 20\<rparr>]"
    by (simp add: join_inner_def open_smart_meter_def ex_grid_row_def)
  have wk: "weeks_spanned (map ts ?J) = [0, 1, 2]"
    unfolding J by (simp add: week_of_def upto.simps)
  have ne: "?raw \<noteq> [] \<and> ?grid \<noteq> []" by simp
  from zero_divisor_week [of ?raw ?grid, THEN conjunct1, THEN mp, OF ne]
  obtain weekly where ret: "df_weekly ?raw ?grid = Inr weekly" by blast
  from df_weekly_Inr [OF ret] have tbl: "weekly = [?w0, ?w1, ?w2]"
    unfolding wk by simp
  have mem: "?w0 \<in> set weekly" "?w1 \<in> set weekly" "?w2 \<in> set weekly"
    unfolding tbl by simp_all
  have si: "sum_imports ?w0 = Num 0" "sum_imports ?w1 = Num 0" "sum_imports ?w2 = Num 2"
    unfolding weekly_row_of_sums J by (simp_all add: week_rows_def week_of_def)
  have sh: "sum_home_carbon ?w0 = Num 0" "sum_home_carbon ?w1 = Num 0"
    "sum_home_carbon ?w2 = Num 400"
    unfolding weekly_row_of_sums J by (simp_all add: week_rows_def week_of_def)
  have sg: "sum_generation ?w0 = Num 10" "sum_generation ?w1 = Num 0"
    "sum_generation ?w2 = Num 20"
    unfolding weekly_row_of_sums J by (simp_all add: week_rows_def week_of_def)
  have sc: "sum_grid_carbon ?w0 = Num 1000" "sum_grid_carbon ?w1 = Num 0"
    "sum_grid_carbon ?w2 = Num 4000"
    unfolding weekly_row_of_sums J by (simp_all add: week_rows_def week_of_def)
  note T = zero_divisor_week [of ?raw ?grid, THEN conjunct2, THEN spec, THEN mp, OF ret]
  note T0 = T [THEN bspec, OF mem(1)]
  note T1 = T [THEN bspec, OF mem(2)]
  have h0: "home_carbon_intensity ?w0 = NaN"
    using T0 [THEN conjunct1, THEN mp, OF si(1), THEN conjunct1] sh(1) by simp
  have h1: "home_carbon_intensity ?w1 = NaN"
    using T1 [THEN conjunct1, THEN mp, OF si(2), THEN conjunct1] sh(2) by simp
  have g1: "grid_carbon_intensity ?w1 = NaN"
    using T1 [THEN conjunct2, THEN conjunct1, THEN mp, OF sg(2), THEN conjunct1] sc(2) by simp
  have h2: "home_carbon_intensity ?w2 = Num 200"
    unfolding weekly_row_of_home_intensity si sh by simp
  have g0: "grid_carbon_intensity ?w0 = Num 100" and g2: "grid_carbon_intensity ?w2 = Num 200"
    unfolding weekly_row_of_grid_intensity sg sc by simp_all
  show ?thesis unfolding ret tbl using si sh h0 h1 h2 g0 g1 g2 by simp
qed

theorem zero_divisor_infinite_counterexample:
  "map_sum id (map sum_imports) (df_weekly [(0, Some 1), (1800, Some (- 1))]
      [ex_grid_row 0 100 10, ex_grid_row 1800 200 10]) = Inr [Num 0] \<and>
   map_sum id (map home_carbon_intensity) (df_weekly [(0, Some 1), (1800, Some (- 1))]
      [ex_grid_row 0 100 10, ex_grid_row 1800 200 10]) = Inr [NegInf] \<and>
   NegInf \<noteq> NaN"
  by (simp add: df_weekly_def join_inner_def open_smart_meter_def ex_grid_row_def
      weekly_row_of_def week_rows_def week_of_def nansum_def home_carbon_def grid_carbon_def
      Let_def)

section \<open>The overall averages\<close>




section \<open>Source attribution\<close>



text \<open>
  C10 (amended). \<open>calculate_home_source_usage\<close> aligns the two series by timestamp and
  joins nothing. It returns a table when neither series repeats a timestamp and the grid
  series has a row; with a repeated grid timestamp it can raise \<open>ValueError\<close> instead.
  Whenever it returns: the frame has the rows of the cleaned home series (if there are
  any); in a row whose timestamp only one of the two series has, the attributed value of
  every source is NaN, and in a row whose timestamp both have it is the home import
  times the fraction of the source in a grid row of that timestamp; a weekly usage is the
  sum over the week's rows at timestamps that both series have (a NaN adds nothing); and
  a week of the table without a common timestamp has usage 0 for every source.
\<close>

theorem usage_common_timestamps:
  "(distinct (map fst raw) \<and> distinct (map DATETIME grid) \<and> grid \<noteq> [] \<longrightarrow>
      (\<exists>tbl. calculate_home_source_usage raw grid = Inr tbl)) \<and>
   (\<forall>rows tbl. align (open_smart_meter raw) grid = Inr rows \<and>
        calculate_home_source_usage raw grid = Inr tbl \<longrightarrow>
      (raw \<noteq> [] \<longrightarrow> map fst rows = open_smart_meter raw) \<and>
      (\<forall>r \<in> set rows. \<forall>s.
         (fst (fst r) \<notin> set (map fst raw) \<or> fst (fst r) \<notin> set (map DATETIME grid) \<longrightarrow>
            attributed s r = NaN) \<and>
         (fst (fst r) \<in> set (map fst raw) \<and> fst (fst r) \<in> set (map DATETIME grid) \<longrightarrow>
            (\<exists>g \<in> set grid. DATETIME g = fst (fst r) \<and>
               attributed s r = fmul (of_cell (snd (fst r))) (grid_mix g s)))) \<and>
      (\<forall>w \<in> set tbl.
         (\<forall>s. usage w s = nansum (map (attributed s)
            (filter (\<lambda>r. in_week_ending (usage_week w) (fst (fst r)) \<and>
                         fst (fst r) \<in> set (map fst raw) \<and>
                         fst (fst r) \<in> set (map DATETIME grid)) rows))) \<and>
         ((\<forall>t. in_week_ending (usage_week w) t \<and> t \<in> set (map fst raw) \<longrightarrow>
               t \<notin> set (map DATETIME grid)) \<longrightarrow>
          (\<forall>s. usage w s = Num 0))))"
proof (intro conjI allI impI)
  assume "distinct (map fst raw) \<and> distinct (map DATETIME grid) \<and> grid \<noteq> []"
  then show "\<exists>tbl. calculate_home_source_usage raw grid = Inr tbl"
    using usage_returns [of raw grid] by blast
next
  fix rows tbl
  assume "align (open_smart_meter raw) grid = Inr rows \<and>
        calculate_home_source_usage raw grid = Inr tbl"
    and "raw \<noteq> []"
  then show "map fst rows = open_smart_meter raw"
    using align_index [of "open_smart_meter raw" grid rows] open_smart_meter_Nil [of raw]
    by simp
next
  fix rows tbl
  assume a: "align (open_smart_meter raw) grid = Inr rows \<and>
        calculate_home_source_usage raw grid = Inr tbl"
  then have al: "align (open_smart_meter raw) grid = Inr rows" by simp
  show "\<forall>r \<in> set rows. \<forall>s.
         (fst (fst r) \<notin> set (map fst raw) \<or> fst (fst r) \<notin> set (map DATETIME grid) \<longrightarrow>
            attributed s r = NaN) \<and>
         (fst (fst r) \<in> set (map fst raw) \<and> fst (fst r) \<in> set (map DATETIME grid) \<longrightarrow>
            (\<exists>g \<in> set grid. DATETIME g = fst (fst r) \<and>
               attributed s r = fmul (of_cell (snd (fst r))) (grid_mix g s)))"
  proof (intro ballI allI conjI impI)
    fix r s
    assume r: "r \<in> set rows"
      and "fst (fst r) \<notin> set (map fst raw) \<or> fst (fst r) \<notin> set (map DATETIME grid)"
    then show "attributed s r = NaN" by (rule attributed_one_sided [OF al])
  next
    fix r s
    assume r: "r \<in> set rows"
      and both: "fst (fst r) \<in> set (map fst raw) \<and> fst (fst r) \<in> set (map DATETIME grid)"
    from align_partner [OF al r] both obtain g
      where g: "snd r = Some g" "g \<in> set grid" "DATETIME g = fst (fst r)"
      by (cases "snd r") auto
    obtain t v where "fst r = (t, v)" by (cases "fst r")
    then have "r = ((t, v), Some g)" using g(1) by (cases r) simp
    then have "attributed s r = fmul (of_cell (snd (fst r))) (grid_mix g s)" by simp
    then show "\<exists>g \<in> set grid. DATETIME g = fst (fst r) \<and>
               attributed s r = fmul (of_cell (snd (fst r))) (grid_mix g s)"
      using g by blast
  qed
next
  fix rows tbl
  assume a: "align (open_smart_meter raw) grid = Inr rows \<and>
        calculate_home_source_usage raw grid = Inr tbl"
  then have al: "align (open_smart_meter raw) grid = Inr rows"
    and tbl: "calculate_home_source_usage raw grid = Inr tbl" by simp_all
  show "\<forall>w \<in> set tbl.
         (\<forall>s. usage w s = nansum (map (attributed s)
            (filter (\<lambda>r. in_week_ending (usage_week w) (fst (fst r)) \<and>
                         fst (fst r) \<in> set (map fst raw) \<and>
                         fst (fst r) \<in> set (map DATETIME grid)) rows))) \<and>
         ((\<forall>t. in_week_ending (usage_week w) t \<and> t \<in> set (map fst raw) \<longrightarrow>
               t \<notin> set (map DATETIME grid)) \<longrightarrow>
          (\<forall>s. usage w s = Num 0))"
  proof
    fix w assume w: "w \<in> set tbl"
    let ?R = "filter (\<lambda>r. in_week_ending (usage_week w) (fst (fst r))) rows"
    let ?C = "filter (\<lambda>r. in_week_ending (usage_week w) (fst (fst r)) \<and>
                         fst (fst r) \<in> set (map fst raw) \<and>
                         fst (fst r) \<in> set (map DATETIME grid)) rows"
    have u: "usage w s = nansum (map (attributed s) ?C)" for s
    proof -
      have "usage w s = nansum (map (attributed s) ?R)"
        by (rule usage_row [OF tbl w al])
      also have "\<dots> = nansum (map (attributed s)
          (filter (\<lambda>r. fst (fst r) \<in> set (map fst raw) \<and>
                       fst (fst r) \<in> set (map DATETIME grid)) ?R))"
      proof (rule nansum_filter_NaN [symmetric], intro ballI impI)
        fix r assume "r \<in> set ?R"
          and "\<not> (fst (fst r) \<in> set (map fst raw) \<and> fst (fst r) \<in> set (map DATETIME grid))"
        then show "attributed s r = NaN"
          using attributed_one_sided [OF al, of r s] by auto
      qed
      also have "filter (\<lambda>r. fst (fst r) \<in> set (map fst raw) \<and>
                       fst (fst r) \<in> set (map DATETIME grid)) ?R = ?C"
        by (simp add: conj_commute conj_left_commute)
      finally show ?thesis .
    qed
    have z: "\<forall>s. usage w s = Num 0"
      if none: "\<forall>t. in_week_ending (usage_week w) t \<and> t \<in> set (map fst raw) \<longrightarrow>
               t \<notin> set (map DATETIME grid)"
    proof -
      have "?C = []" unfolding filter_empty_conv using none by blast
      then show ?thesis by (simp only: u) (simp add: nansum_Nil)
    qed
    from u z show "(\<forall>s. usage w s = nansum (map (attributed s) ?C)) \<and>
         ((\<forall>t. in_week_ending (usage_week w) t \<and> t \<in> set (map fst raw) \<longrightarrow>
               t \<notin> set (map DATETIME grid)) \<longrightarrow>
          (\<forall>s. usage w s = Num 0))"
      by blast
  qed
qed

theorem usage_common_timestamps_witness:
  "distinct (map fst [(0::int, Some (2::real)), (1800, Some 4), (700000, Some 1)]) \<and>
   distinct (map DATETIME
     [ex_mix_row 0 (\<lambda>s. if s = GAS then Some 3 else if s = WIND then Some 1 else Some 0),
      ex_mix_row 3600 (\<lambda>s. Some 1)]) \<and>
   align (open_smart_meter [(0, Some 2), (1800, Some 4), (700000, Some 1)])
     [ex_mix_row 0 (\<lambda>s. if s = GAS then Some 3 else if s = WIND then Some 1 else Some 0),
      ex_mix_row 3600 (\<lambda>s. Some 1)]
     = Inr [((0, Some 2), Some (ex_mix_row 0
               (\<lambda>s. if s = GAS then Some 3 else if s = WIND then Some 1 else Some 0))),
            ((1800, Some 4), None), ((700000, Some 1), None)] \<and>
   attributed GAS ((1800, Some 4), None) = NaN \<and>
   map_sum id (map usage_week)
     (calculate_home_source_usage [(0, Some 2), (1800, Some 4), (700000, Some 1)]
     [ex_mix_row 0 (\<lambda>s. if s = GAS then Some 3 else if s = WIND then Some 1 else Some 0),
      ex_mix_row 3600 (\<lambda>s. Some 1)]) = Inr [259200, 864000] \<and>
   map_sum id (map (\<lambda>w. usage w GAS))
     (calculate_home_source_usage [(0, Some 2), (1800, Some 4), (700000, Some 1)]
     [ex_mix_row 0 (\<lambda>s. if s = GAS then Some 3 else if s = WIND then Some 1 else Some 0),
      ex_mix_row 3600 (\<lambda>s. Some 1)]) = Inr [Num (3 / 2), Num 0]"
proof -
  let ?raw = "[(0, Some 2), (1800, Some 4), (700000, Some 1)] :: series"
  let ?m = "\<lambda>s. if s = GAS then Some (3::real) else if s = WIND then Some 1 else Some 0"
  let ?grid = "[ex_mix_row 0 ?m, ex_mix_row 3600 (\<lambda>s. Some 1)]"
  let ?rows = "[((0, Some 2), Some (ex_mix_row 0 ?m)), ((1800, Some 4), None),
      ((700000, Some 1), None)] :: aligned_row list"
  have d: "distinct (map fst ?raw) \<and> distinct (map DATETIME ?grid) \<and> ?grid \<noteq> []"
    by (simp add: ex_mix_row_def)
  from usage_common_timestamps [of ?raw ?grid, THEN conjunct1, THEN mp, OF d]
  obtain tbl where tbl: "calculate_home_source_usage ?raw ?grid = Inr tbl" by blast
  have df: "open_smart_meter ?raw = ?raw" by (simp add: open_smart_meter_def)
  have al: "align (open_smart_meter ?raw) ?grid = Inr ?rows"
    unfolding df by (simp add: align_def ex_mix_row_def)
  from al tbl have both: "align (open_smart_meter ?raw) ?grid = Inr ?rows \<and>
      calculate_home_source_usage ?raw ?grid = Inr tbl" by (rule conjI)
  note T = usage_common_timestamps [of ?raw ?grid, THEN conjunct2, THEN spec, THEN spec,
      THEN mp, OF both]
  have weeks: "map usage_week tbl = [259200, 864000]"
    unfolding usage_weeks [OF tbl al] by (simp add: week_of_def week_end_def upto.simps)
  then have len: "length tbl = 2" using length_map [of usage_week tbl] by simp
  then obtain w0 w1 where w: "tbl = [w0, w1]"
    by (cases tbl; cases "tl tbl") auto
  have wk: "usage_week w0 = 259200" "usage_week w1 = 864000" using weeks unfolding w by simp_all
  have mem: "w0 \<in> set tbl" "w1 \<in> set tbl" unfolding w by simp_all
  have r: "((1800, Some 4), None) \<in> set ?rows" by simp
  have n1: "attributed GAS ((1800, Some 4), None) = NaN"
    using T [THEN conjunct2, THEN conjunct1, THEN bspec, OF r, THEN spec, of GAS, THEN conjunct1]
    by (simp add: ex_mix_row_def)
  note U0 = T [THEN conjunct2, THEN conjunct2, THEN bspec, OF mem(1)]
  note U1 = T [THEN conjunct2, THEN conjunct2, THEN bspec, OF mem(2)]
  have u0: "usage w0 GAS = Num (3 / 2)"
    using U0 [THEN conjunct1, THEN spec, of GAS] unfolding wk
    by (simp add: in_week_ending_def ex_mix_row_def grid_mix_def row_total_def
        GENERATION_MIX_COLUMNS_def nansum_def)
  have none: "\<forall>t. in_week_ending (usage_week w1) t \<and> t \<in> set (map fst ?raw) \<longrightarrow>
      t \<notin> set (map DATETIME ?grid)"
    unfolding wk by (auto simp: in_week_ending_def ex_mix_row_def)
  have u1: "usage w1 GAS = Num 0"
    using U1 [THEN conjunct2, THEN mp, OF none] by simp
  have "map_sum id (map usage_week) (calculate_home_source_usage ?raw ?grid)
      = Inr [259200, 864000]"
    unfolding tbl using weeks by simp
  moreover have "map_sum id (map (\<lambda>w. usage w GAS)) (calculate_home_source_usage ?raw ?grid)
      = Inr [Num (3 / 2), Num 0]"
    unfolding tbl w using u0 u1 by simp
  ultimately show ?thesis using d al n1 by blast
qed

theorem usage_repeated_grid_counterexample:
  "calculate_home_source_usage [(0, Some 2)]
     [ex_mix_row 0 (\<lambda>s. Some 1), ex_mix_row 0 (\<lambda>s. Some 1)] = Inl ValueError \<and>
   calculate_home_source_usage [(0, Some 2)]
     [ex_mix_row 1209600 (\<lambda>s. Some 1), ex_mix_row 1209600 (\<lambda>s. Some 1)] = Inl ValueError"
  by (simp add: calculate_home_source_usage_def align_def open_smart_meter_def ex_mix_row_def)




end
